theory Spec2Isabelle
  imports Complex_Main "HOL-Library.Log_Nat"
begin

section \<open>Python numbers\<close>

text \<open>
  Python's \<^verbatim>\<open>int\<close> is unbounded and is modelled by \<open>int\<close> (by \<open>nat\<close> for list
  positions and lengths). Python's \<^verbatim>\<open>float\<close> is IEEE 754 binary64. A finite double
  is modelled by the rational number it denotes, and every arithmetic operation of
  the source is the exact operation followed by \<open>fl\<close>, rounding to the nearest
  double, ties to the even significand. \<open>fl\<close> knows the 53-bit significand and the
  subnormal range (least exponent \<open>-1074\<close>); a result of magnitude \<open>2 ^ 1024\<close> or
  more is an overflow, tested by \<open>finite_double\<close> where the source can reach it.
\<close>

type_synonym double = rat

datatype py_error = OverflowError

text \<open>\<open>ilog2 x\<close> is the binary exponent of a positive \<open>x\<close>: \<open>2 powi ilog2 x \<le> x < 2 powi (ilog2 x + 1)\<close>.\<close>

definition ilog2 :: "rat \<Rightarrow> int" where
  "ilog2 x = (if 1 \<le> x then bitlen \<lfloor>x\<rfloor> - 1 else - bitlen (\<lceil>1 / x\<rceil> - 1))"

definition round_half_even :: "rat \<Rightarrow> int" where
  "round_half_even x =
     (let n = \<lfloor>x\<rfloor>; r = x - of_int n
      in if r < 1 / 2 then n
         else if 1 / 2 < r then n + 1
         else if even n then n else n + 1)"

definition fl :: "rat \<Rightarrow> double" where
  "fl x = (if x = 0 then 0
           else let e = max (ilog2 \<bar>x\<bar> - 52) (- 1074)
                in of_int (round_half_even (x / 2 powi e)) * 2 powi e)"

definition finite_double :: "rat \<Rightarrow> bool" where
  "finite_double x \<longleftrightarrow> \<bar>x\<bar> < 2 ^ 1024"

text \<open>\<^verbatim>\<open>int(x)\<close> on a float truncates toward zero.\<close>

definition py_int :: "double \<Rightarrow> int" where
  "py_int x = (if 0 \<le> x then \<lfloor>x\<rfloor> else \<lceil>x\<rceil>)"

text \<open>\<^verbatim>\<open>str(n)\<close> on an int: decimal digits, with a minus sign for a negative number.\<close>

fun digits :: "nat \<Rightarrow> string" where
  "digits n = (if n < 10 then [char_of (48 + n)] else digits (n div 10) @ [char_of (48 + n mod 10)])"

definition str :: "int \<Rightarrow> string" where
  "str z = (if z < 0 then CHR ''-'' # digits (nat (- z)) else digits (nat z))"

text \<open>The character U+2026 of the status texts, as its three UTF-8 bytes.\<close>

definition ellipsis :: string where
  "ellipsis = [CHR 0xE2, CHR 0x80, CHR 0xA6]"

section \<open>What one yielded tuple holds\<close>

text \<open>
  \<^verbatim>\<open>format_steps(active_step)\<close> fills the five slots \<^verbatim>\<open>s1 .. s5\<close> of the panel template
  with \<^verbatim>\<open>"active"\<close> or \<^verbatim>\<open>""\<close>; the panel is modelled by the five flags.
\<close>

definition format_steps :: "int \<Rightarrow> bool list" where
  "format_steps active_step =
     [active_step = 1, active_step = 2, active_step = 3, active_step = 4, active_step = 5]"

text \<open>
  \<^verbatim>\<open>draw_frame\<close> renders its arguments at once into an image, so the image is a snapshot
  of them: the array, the current and the found index (\<open>-1\<close> for none), the checked set
  as it is at the call, and the glow strength.
\<close>

record visual =
  bars :: "int list"
  current_index :: int
  found_index :: int
  checked_indices :: "nat set"
  glow_strength :: double

definition draw_frame :: "int list \<Rightarrow> int \<Rightarrow> int \<Rightarrow> nat set \<Rightarrow> double \<Rightarrow> visual" where
  "draw_frame arr ci fi checked glow =
     \<lparr>bars = arr, current_index = ci, found_index = fi, checked_indices = checked,
      glow_strength = glow\<rparr>"

text \<open>
  \<^verbatim>\<open>progress_html(done, total)\<close> computes \<^verbatim>\<open>pct = int((done / max(1, total)) * 100)\<close> and
  prints \<^verbatim>\<open>pct\<close>, \<^verbatim>\<open>done\<close> and \<^verbatim>\<open>total\<close> into a snippet. The true division of two ints is
  correctly rounded; the product with 100 is rounded again. The sequencer passes list
  positions, so the arguments are naturals and the quotient never leaves the double range.
\<close>

record progress =
  pct :: int
  done_count :: nat
  total :: nat

definition progress_html :: "nat \<Rightarrow> nat \<Rightarrow> progress" where
  "progress_html d t =
     \<lparr>pct = py_int (fl (fl (of_nat d / of_nat (max 1 t)) * 100)), done_count = d, total = t\<rparr>"

record frame =
  status :: string
  image :: "visual option"
  step :: "bool list"
  progress :: progress

text \<open>The generator's effects in program order: a \<^verbatim>\<open>yield\<close> or a \<^verbatim>\<open>time.sleep\<close>.\<close>

datatype event = Yield frame | Sleep double

fun yielded :: "event list \<Rightarrow> frame list" where
  "yielded [] = []"
| "yielded (Yield f # es) = f # yielded es"
| "yielded (Sleep d # es) = yielded es"

section \<open>The sequencer\<close>

text \<open>
  Lines 258 to 259: \<^verbatim>\<open>frames_per_step = max(1, int(12 - (speed - 1) * 1.1))\<close>. The int
  \<^verbatim>\<open>speed - 1\<close> is converted to a double, which raises \<^verbatim>\<open>OverflowError\<close> when it is too
  large; a product that overflows is an infinity, and \<^verbatim>\<open>int\<close> of an infinity raises
  \<^verbatim>\<open>OverflowError\<close> too.
\<close>

definition frames_per_step :: "int \<Rightarrow> py_error + int" where
  "frames_per_step speed =
     (let a = fl (of_int (speed - 1))
      in if \<not> finite_double a then Inl OverflowError
         else let p = fl (a * fl (11 / 10))
              in if \<not> finite_double p then Inl OverflowError
                 else Inr (max 1 (py_int (fl (12 - p)))))"

definition frame_delay :: double where
  "frame_delay = fl (6 / 100)"

text \<open>Line 277, \<^verbatim>\<open>t * t * (3 - 2 * t)\<close>, as Python evaluates it in doubles.\<close>

definition ease :: "double \<Rightarrow> double" where
  "ease t = fl (fl (t * t) * fl (3 - fl (2 * t)))"

text \<open>Lines 275 to 282: the approach frames of index \<open>i\<close>.\<close>

definition approach :: "int list \<Rightarrow> int \<Rightarrow> nat \<Rightarrow> nat set \<Rightarrow> event list" where
  "approach arr fps i checked =
     concat (map (\<lambda>f.
        let t = fl (of_nat (f + 1) / of_int fps);
            glow = fl (1 / 2 * ease t)
        in [Yield \<lparr>status = ''Checking index '' @ str (int i) @ ellipsis,
                   image = Some (draw_frame arr (int i) (- 1) checked glow),
                   step = format_steps 2,
                   progress = progress_html i (length arr)\<rparr>,
            Sleep frame_delay]) [0..<nat fps])"

text \<open>Line 299: \<^verbatim>\<open>pulse = 0.6 + 0.9 * (1 - abs((p / 5) - 0.5) * 2)\<close>.\<close>

definition pulse :: "nat \<Rightarrow> double" where
  "pulse p = fl (fl (6 / 10) + fl (fl (9 / 10) * fl (1 - fl (\<bar>fl (fl (of_nat p / 5) - 1 / 2)\<bar> * 2))))"

text \<open>Lines 298 to 303: the six found pulses, after which the generator returns.\<close>

definition found_pulses :: "int list \<Rightarrow> int \<Rightarrow> nat \<Rightarrow> nat set \<Rightarrow> event list" where
  "found_pulses arr target i checked =
     concat (map (\<lambda>p.
        [Yield \<lparr>status = ''FOUND '' @ str target @ '' at index '' @ str (int i) @ ''!,'',
                 image = Some (draw_frame arr (int i) (int i) checked (pulse p)),
                 step = format_steps 3,
                 progress = progress_html (length arr) (length arr)\<rparr>,
         Sleep frame_delay]) [0..<6])"

text \<open>
  Lines 270 to 316: the loop over \<^verbatim>\<open>enumerate(arr)\<close>, by recursion on the elements still
  to visit, with the index \<open>i\<close> of the next one and the checked set; the empty list is
  the end of the loop, where the End frame is yielded.
\<close>

fun search_loop :: "int list \<Rightarrow> int \<Rightarrow> int \<Rightarrow> nat \<Rightarrow> nat set \<Rightarrow> int list \<Rightarrow> event list" where
  "search_loop arr target fps i checked [] =
     [Yield \<lparr>status = ''End of search.'',
              image = Some (draw_frame arr (- 1) (- 1) checked 0),
              step = format_steps 5,
              progress = progress_html (length arr) (length arr)\<rparr>]"
| "search_loop arr target fps i checked (val # rest) =
     approach arr fps i checked @
     [Yield \<lparr>status = ''Comparing '' @ str val @ '' with '' @ str target @ ellipsis,
              image = Some (draw_frame arr (int i) (- 1) checked (fl (8 / 10))),
              step = format_steps 2,
              progress = progress_html (i + 1) (length arr)\<rparr>,
      Sleep frame_delay] @
     (let checked = insert i checked
      in if val = target then found_pulses arr target i checked
         else [Yield \<lparr>status = ''No match, moving to index '' @ str (int i + 1),
                       image = Some (draw_frame arr (int i) (- 1) checked (fl (2 / 10))),
                       step = format_steps 4,
                       progress = progress_html (i + 1) (length arr)\<rparr>,
               Sleep frame_delay] @
              search_loop arr target fps (i + 1) checked rest)"

text \<open>
  Lines 232 to 316. The array is a list of ints (the branch that evaluates a string
  belongs to the host), the target is \<open>None\<close> or an int, the speed an int. The result
  is the trace of the run, or the exception raised before the first \<^verbatim>\<open>yield\<close>.
\<close>

definition linear_search_animated :: "int list \<Rightarrow> int option \<Rightarrow> int \<Rightarrow> py_error + event list" where
  "linear_search_animated arr target speed =
     (case target of
        None \<Rightarrow>
          Inr [Yield \<lparr>status = ''Pick a target number.'', image = None,
                      step = format_steps 0, progress = progress_html 0 (length arr)\<rparr>]
      | Some tg \<Rightarrow>
          if tg \<notin> set arr
          then Inr [Yield \<lparr>status = str tg @ '' is NOT in the list.'', image = None,
                           step = format_steps 0, progress = progress_html 0 (length arr)\<rparr>]
          else (case frames_per_step speed of
                  Inl e \<Rightarrow> Inl e
                | Inr fps \<Rightarrow>
                    Inr ([Yield \<lparr>status = ''Starting search'' @ ellipsis,
                                 image = Some (draw_frame arr (- 1) (- 1) {} 0),
                                 step = format_steps 1,
                                 progress = progress_html 0 (length arr)\<rparr>,
                          Sleep (fl (18 / 100))] @
                         search_loop arr tg fps 0 {} arr)))"

text \<open>The frames a consumer receives: those yielded before the run ends or raises.\<close>

definition frames_of :: "py_error + event list \<Rightarrow> frame list" where
  "frames_of r = (case r of Inl e \<Rightarrow> [] | Inr es \<Rightarrow> yielded es)"

text \<open>
  The generator object as Python runs it. The set of line 254 is an object on the heap,
  which every generator of the process shares; the local variable \<^verbatim>\<open>checked\<close> holds its
  address, and \<^verbatim>\<open>draw_frame\<close> reads the object when a frame is drawn. The heap is the
  list of the set objects allocated so far, an address an index into it.
\<close>

type_synonym address = nat

type_synonym heap = "nat set list"

text \<open>
  The statements of the generator's body that act on \<^verbatim>\<open>checked\<close> or are seen by the
  consumer: \<^verbatim>\<open>checked = set()\<close>, \<^verbatim>\<open>checked.add(i)\<close>, a \<^verbatim>\<open>yield\<close> of a tuple without an image, a
  \<^verbatim>\<open>yield\<close> of a tuple whose image is \<^verbatim>\<open>draw_frame(arr, current, found, checked, glow)\<close> (with
  the status, the two indices, the glow, the step and the progress), a \<^verbatim>\<open>time.sleep\<close>, and
  an exception.
\<close>

datatype instr =
    New_set
  | Add nat
  | Emit frame
  | Draw string int int double "bool list" progress
  | Pause double
  | Raise py_error

text \<open>Lines 275 to 282, 298 to 303 and 270 to 316 as statements, in program order.\<close>

definition approach_code :: "int list \<Rightarrow> int \<Rightarrow> nat \<Rightarrow> instr list" where
  "approach_code arr fps i =
     concat (map (\<lambda>f.
        let t = fl (of_nat (f + 1) / of_int fps);
            glow = fl (1 / 2 * ease t)
        in [Draw (''Checking index '' @ str (int i) @ ellipsis) (int i) (- 1) glow
              (format_steps 2) (progress_html i (length arr)),
            Pause frame_delay]) [0..<nat fps])"

definition found_code :: "int list \<Rightarrow> int \<Rightarrow> nat \<Rightarrow> instr list" where
  "found_code arr target i =
     concat (map (\<lambda>p.
        [Draw (''FOUND '' @ str target @ '' at index '' @ str (int i) @ ''!,'') (int i) (int i)
           (pulse p) (format_steps 3) (progress_html (length arr) (length arr)),
         Pause frame_delay]) [0..<6])"

fun loop_code :: "int list \<Rightarrow> int \<Rightarrow> int \<Rightarrow> nat \<Rightarrow> int list \<Rightarrow> instr list" where
  "loop_code arr target fps i [] =
     [Draw ''End of search.'' (- 1) (- 1) 0 (format_steps 5)
        (progress_html (length arr) (length arr))]"
| "loop_code arr target fps i (val # rest) =
     approach_code arr fps i @
     [Draw (''Comparing '' @ str val @ '' with '' @ str target @ ellipsis) (int i) (- 1)
        (fl (8 / 10)) (format_steps 2) (progress_html (i + 1) (length arr)),
      Pause frame_delay,
      Add i] @
     (if val = target then found_code arr target i
      else [Draw (''No match, moving to index '' @ str (int i + 1)) (int i) (- 1)
              (fl (2 / 10)) (format_steps 4) (progress_html (i + 1) (length arr)),
            Pause frame_delay] @
           loop_code arr target fps (i + 1) rest)"

text \<open>
  Lines 232 to 316 as statements. The two validation frames are yielded before line 254
  creates the set; line 258 can raise only after it.
\<close>

definition generator_code :: "int list \<Rightarrow> int option \<Rightarrow> int \<Rightarrow> instr list" where
  "generator_code arr target speed =
     (case target of
        None \<Rightarrow>
          [Emit \<lparr>status = ''Pick a target number.'', image = None,
                 step = format_steps 0, progress = progress_html 0 (length arr)\<rparr>]
      | Some tg \<Rightarrow>
          if tg \<notin> set arr
          then [Emit \<lparr>status = str tg @ '' is NOT in the list.'', image = None,
                      step = format_steps 0, progress = progress_html 0 (length arr)\<rparr>]
          else New_set #
               (case frames_per_step speed of
                  Inl e \<Rightarrow> [Raise e]
                | Inr fps \<Rightarrow>
                    [Draw (''Starting search'' @ ellipsis) (- 1) (- 1) 0 (format_steps 1)
                       (progress_html 0 (length arr)),
                     Pause (fl (18 / 100))] @
                    loop_code arr tg fps 0 arr))"

text \<open>
  \<^verbatim>\<open>next(gen)\<close>: the body runs on from where it was suspended, on the heap as it is now,
  up to its next \<^verbatim>\<open>yield\<close>; the result is the tuple yielded, or \<open>None\<close> when the body
  ends or raises, with the statements still to run, the address held by \<^verbatim>\<open>checked\<close> and
  the heap. \<^verbatim>\<open>set()\<close> allocates a new object, at an address no object has; \<^verbatim>\<open>checked.add\<close>
  changes the object in place; a use of \<^verbatim>\<open>checked\<close> before line 254 would raise.
\<close>

fun resume :: "int list \<Rightarrow> instr list \<Rightarrow> address option \<Rightarrow> heap
    \<Rightarrow> frame option \<times> instr list \<times> address option \<times> heap" where
  "resume arr [] a h = (None, [], a, h)"
| "resume arr (New_set # is) a h = resume arr is (Some (length h)) (h @ [{}])"
| "resume arr (Add i # is) None h = (None, [], None, h)"
| "resume arr (Add i # is) (Some k) h = resume arr is (Some k) (h[k := insert i (h ! k)])"
| "resume arr (Emit f # is) a h = (Some f, is, a, h)"
| "resume arr (Draw st ci fi g stp pr # is) None h = (None, [], None, h)"
| "resume arr (Draw st ci fi g stp pr # is) (Some k) h =
     (Some \<lparr>status = st, image = Some (draw_frame arr ci fi (h ! k) g),
            step = stp, progress = pr\<rparr>, is, Some k, h)"
| "resume arr (Pause d # is) a h = resume arr is a h"
| "resume arr (Raise e # is) a h = (None, [], a, h)"

text \<open>
  A generator object: the array, the statements still to run and the address held by
  \<^verbatim>\<open>checked\<close>. Calling \<^verbatim>\<open>linear_search_animated(arr, target, speed)\<close> creates one and runs
  nothing of the body.
\<close>

type_synonym generator = "int list \<times> instr list \<times> address option"

definition generator :: "int list \<Rightarrow> int option \<Rightarrow> int \<Rightarrow> generator" where
  "generator arr target speed = (arr, generator_code arr target speed, None)"

definition next_frame :: "generator \<Rightarrow> heap \<Rightarrow> frame option \<times> generator \<times> heap" where
  "next_frame gen h =
     (case gen of (arr, is, a) \<Rightarrow>
        (case resume arr is a h of (fo, is', a', h') \<Rightarrow> (fo, (arr, is', a'), h')))"

text \<open>
  Two generator objects on one heap, and a consumer that calls \<^verbatim>\<open>next\<close> on the first or on
  the second in any order: the frames each of them has yielded.
\<close>

datatype turn = First | Second

fun interleave :: "turn list \<Rightarrow> generator \<Rightarrow> generator \<Rightarrow> heap \<Rightarrow> frame list \<times> frame list" where
  "interleave [] g1 g2 h = ([], [])"
| "interleave (First # s) g1 g2 h =
     (case next_frame g1 h of (fo, g1', h') \<Rightarrow>
        (case interleave s g1' g2 h' of (fs1, fs2) \<Rightarrow>
           (case fo of None \<Rightarrow> (fs1, fs2) | Some f \<Rightarrow> (f # fs1, fs2))))"
| "interleave (Second # s) g1 g2 h =
     (case next_frame g2 h of (fo, g2', h') \<Rightarrow>
        (case interleave s g1 g2' h' of (fs1, fs2) \<Rightarrow>
           (case fo of None \<Rightarrow> (fs1, fs2) | Some f \<Rightarrow> (fs1, f # fs2))))"

text \<open>
  The statements run on a set held as a value (\<open>None\<close> before line 254): the trace they
  leave.
\<close>

fun trace :: "int list \<Rightarrow> nat set option \<Rightarrow> instr list \<Rightarrow> event list" where
  "trace arr c [] = []"
| "trace arr c (New_set # is) = trace arr (Some {}) is"
| "trace arr None (Add i # is) = []"
| "trace arr (Some c) (Add i # is) = trace arr (Some (insert i c)) is"
| "trace arr c (Emit f # is) = Yield f # trace arr c is"
| "trace arr None (Draw st ci fi g stp pr # is) = []"
| "trace arr (Some c) (Draw st ci fi g stp pr # is) =
     Yield \<lparr>status = st, image = Some (draw_frame arr ci fi c g), step = stp, progress = pr\<rparr> #
     trace arr (Some c) is"
| "trace arr c (Pause d # is) = Sleep d # trace arr c is"
| "trace arr c (Raise e # is) = []"

text \<open>An address that is bound points into the heap; the set it points to.\<close>

definition valid :: "address option \<Rightarrow> heap \<Rightarrow> bool" where
  "valid a h = (case a of None \<Rightarrow> True | Some k \<Rightarrow> k < length h)"

definition bound_set :: "address option \<Rightarrow> heap \<Rightarrow> nat set option" where
  "bound_set a h = map_option (\<lambda>k. h ! k) a"

text \<open>
  An approach frame of index \<open>i\<close>: one of those yielded at line 281, with the status
  \<^verbatim>\<open>Checking index i\<close> followed by the ellipsis, and \<open>i\<close> as its current index.
\<close>

definition approach_frame :: "nat \<Rightarrow> frame \<Rightarrow> bool" where
  "approach_frame i f \<longleftrightarrow>
     status f = ''Checking index '' @ str (int i) @ ellipsis \<and>
     (case image f of None \<Rightarrow> False | Some v \<Rightarrow> current_index v = int i)"

text \<open>
  The easing function in the specification's words, \<open>ease(t) = t\<^sup>2 (3 - 2 t)\<close>, in exact
  arithmetic: over any ordered field, so over the reals of its contract, and over the
  rationals where it is compared with \<open>ease\<close>, the evaluation in doubles of line 277.
\<close>

definition ease_spec :: "'a::linordered_field \<Rightarrow> 'a" where
  "ease_spec t = t\<^sup>2 * (3 - 2 * t)"

section \<open>Rounding to the nearest double\<close>

lemma fl_zero: "fl 0 = 0"
  by (simp add: fl_def)

lemma py_int_of_int: "py_int (of_int k) = k"
  by (simp add: py_int_def)

lemma pct_zero_done: "pct (progress_html 0 t) = 0"
  by (simp add: progress_html_def fl_zero py_int_def)

lemma ilog2_bounds:
  assumes "0 < x"
  shows "2 powi ilog2 x \<le> x" and "x < 2 powi (ilog2 x + 1)"
proof -
  have "2 powi ilog2 x \<le> x \<and> x < 2 powi (ilog2 x + 1)"
  proof (cases "1 \<le> x")
    case True
    define m where "m = \<lfloor>x\<rfloor>"
    have m: "0 < m" "of_int m \<le> x" "x < of_int m + 1"
      using True floor_correct [of x] by (simp_all add: m_def)
    from bitlen_bounds [OF m(1)]
    have lo: "2 ^ nat (bitlen m - 1) \<le> m" and hi: "m < 2 ^ nat (bitlen m)" by simp_all
    have pos: "1 \<le> bitlen m"
      using m(1) bitlen_eq_zero_iff [of m] bitlen_nonneg [of m] by linarith
    have il: "ilog2 x = bitlen m - 1"
      using True by (simp add: ilog2_def m_def)
    have "(2::rat) powi (bitlen m - 1) = of_int (2 ^ nat (bitlen m - 1))"
      using pos by (simp add: power_int_def)
    also have "\<dots> \<le> of_int m" using lo by (simp only: of_int_le_iff)
    finally have a: "2 powi (bitlen m - 1) \<le> x" using m(2) by simp
    have "m + 1 \<le> 2 ^ nat (bitlen m)" using hi by simp
    then have "(of_int (m + 1) :: rat) \<le> of_int (2 ^ nat (bitlen m))"
      by (simp only: of_int_le_iff)
    then have "x < of_int (2 ^ nat (bitlen m))" using m(3) by simp
    also have "(of_int (2 ^ nat (bitlen m)) :: rat) = 2 powi (bitlen m - 1 + 1)"
      using pos by (simp add: power_int_def)
    finally show ?thesis using a il by simp
  next
    case False
    define y where "y = 1 / x"
    define n where "n = \<lceil>y\<rceil> - 1"
    have y: "1 < y" using False assms by (simp add: y_def)
    have "1 < \<lceil>y\<rceil>" using y by (simp add: less_ceiling_iff)
    then have n: "0 < n" "of_int n < y" "y \<le> of_int n + 1"
      using ceiling_correct [of y] by (simp_all add: n_def)
    from bitlen_bounds [OF n(1)]
    have lo: "2 ^ nat (bitlen n - 1) \<le> n" and hi: "n < 2 ^ nat (bitlen n)" by simp_all
    have pos: "1 \<le> bitlen n"
      using n(1) bitlen_eq_zero_iff [of n] bitlen_nonneg [of n] by linarith
    have il: "ilog2 x = - bitlen n"
      using False by (simp add: ilog2_def n_def y_def)
    have x: "x = 1 / y" by (simp add: y_def)
    have "n + 1 \<le> 2 ^ nat (bitlen n)" using hi by simp
    then have "(of_int (n + 1) :: rat) \<le> of_int (2 ^ nat (bitlen n))"
      by (simp only: of_int_le_iff)
    then have yle: "y \<le> 2 ^ nat (bitlen n)" using n(3) by simp
    have "(2::rat) powi (- bitlen n) = 1 / 2 ^ nat (bitlen n)"
      using pos by (simp add: power_int_def inverse_eq_divide power_one_over)
    also have "\<dots> \<le> 1 / y"
      using yle y by (intro divide_left_mono) simp_all
    finally have a: "2 powi (- bitlen n) \<le> x" by (simp add: x)
    have "(of_int (2 ^ nat (bitlen n - 1)) :: rat) \<le> of_int n"
      using lo by (simp only: of_int_le_iff)
    then have "(2::rat) ^ nat (bitlen n - 1) \<le> of_int n" by simp
    then have ylt: "2 ^ nat (bitlen n - 1) < y" using n(2) by linarith
    have "1 / y < 1 / 2 ^ nat (bitlen n - 1)"
      using ylt y by (intro divide_strict_left_mono) simp_all
    also have "\<dots> = (2::rat) powi (- bitlen n + 1)"
    proof (cases "bitlen n = 1")
      case True
      then show ?thesis by simp
    next
      case False
      with pos have "- bitlen n + 1 < 0" by simp
      then have "(2::rat) powi (- bitlen n + 1) = inverse 2 ^ nat (bitlen n - 1)"
        by (simp add: power_int_def)
      then show ?thesis by (simp add: inverse_eq_divide power_one_over)
    qed
    finally show ?thesis using a il by (simp add: x)
  qed
  then show "2 powi ilog2 x \<le> x" and "x < 2 powi (ilog2 x + 1)" by simp_all
qed

lemma ilog2_unique:
  assumes "2 powi k \<le> x" "x < 2 powi (k + 1)"
  shows "ilog2 x = k"
proof -
  have pos: "0 < x"
    using assms(1) zero_less_power_int [of "2::rat" k] by linarith
  note b = ilog2_bounds [OF pos]
  have "(2::rat) powi ilog2 x < 2 powi (k + 1)" using b(1) assms(2) by linarith
  then have "ilog2 x < k + 1"
    using power_int_increasing [of "k + 1" "ilog2 x" "2::rat"] by (cases "ilog2 x < k + 1") auto
  moreover have "(2::rat) powi k < 2 powi (ilog2 x + 1)" using b(2) assms(1) by linarith
  then have "k < ilog2 x + 1"
    using power_int_increasing [of "ilog2 x + 1" k "2::rat"] by (cases "k < ilog2 x + 1") auto
  ultimately show ?thesis by simp
qed

lemma ilog2_mono:
  assumes "0 < x" "x \<le> y"
  shows "ilog2 x \<le> ilog2 y"
proof (rule ccontr)
  assume "\<not> ilog2 x \<le> ilog2 y"
  then have "ilog2 y + 1 \<le> ilog2 x" by simp
  then have "(2::rat) powi (ilog2 y + 1) \<le> 2 powi ilog2 x"
    by (intro power_int_increasing) simp_all
  also have "\<dots> \<le> x" by (rule ilog2_bounds(1) [OF assms(1)])
  also have "\<dots> \<le> y" by (rule assms(2))
  finally show False using ilog2_bounds(2) [of y] assms by simp
qed

lemma round_half_even_of_int: "round_half_even (of_int k) = k"
  by (simp add: round_half_even_def)

lemma round_half_even_cases:
  "round_half_even x = \<lfloor>x\<rfloor> \<or> round_half_even x = \<lfloor>x\<rfloor> + 1"
  by (simp add: round_half_even_def Let_def)

lemma round_half_even_mono:
  assumes "x \<le> y"
  shows "round_half_even x \<le> round_half_even y"
proof (cases "\<lfloor>x\<rfloor> = \<lfloor>y\<rfloor>")
  case True
  then show ?thesis
    using assms by (auto simp: round_half_even_def Let_def)
next
  case False
  then have "\<lfloor>x\<rfloor> + 1 \<le> \<lfloor>y\<rfloor>"
    using floor_mono [OF assms] by linarith
  moreover have "round_half_even x \<le> \<lfloor>x\<rfloor> + 1"
    using round_half_even_cases [of x] by linarith
  moreover have "\<lfloor>y\<rfloor> \<le> round_half_even y"
    using round_half_even_cases [of y] by linarith
  ultimately show ?thesis by linarith
qed

lemma round_half_even_minus: "round_half_even (- x) = - round_half_even x"
proof (cases "x = of_int \<lfloor>x\<rfloor>")
  case True
  then obtain k where "x = of_int k" ..
  then have "- x = of_int (- k)" by simp
  then show ?thesis
    using \<open>x = of_int k\<close> by (simp only: round_half_even_of_int)
next
  case False
  have fm: "\<lfloor>- x\<rfloor> = - \<lfloor>x\<rfloor> - 1"
    using False by (simp add: floor_minus ceiling_altdef)
  have "of_int \<lfloor>x\<rfloor> < x"
    using False of_int_floor_le [of x] by linarith
  then show ?thesis
    by (auto simp: round_half_even_def Let_def fm)
qed

lemma round_half_even_error:
  "\<bar>of_int (round_half_even x) - x\<bar> \<le> 1 / 2"
proof -
  have "of_int \<lfloor>x\<rfloor> \<le> x" "x < of_int \<lfloor>x\<rfloor> + 1"
    using floor_correct [of x] by simp_all
  then show ?thesis
    by (auto simp: round_half_even_def Let_def abs_le_iff)
qed

lemma fl_minus: "fl (- x) = - fl x"
  by (simp add: fl_def Let_def round_half_even_minus)

lemma fl_nonneg:
  assumes "0 \<le> x"
  shows "0 \<le> fl x"
proof (cases "x = 0")
  case True
  then show ?thesis by (simp add: fl_def)
next
  case False
  define e where "e = max (ilog2 \<bar>x\<bar> - 52) (- 1074)"
  have p: "(0::rat) < 2 powi e" by simp
  have "0 \<le> x / 2 powi e" using assms p by simp
  then have "round_half_even (of_int 0) \<le> round_half_even (x / 2 powi e)"
    by (intro round_half_even_mono) simp
  then have "0 \<le> round_half_even (x / 2 powi e)"
    by (simp only: round_half_even_of_int)
  then have "(0::rat) \<le> of_int (round_half_even (x / 2 powi e)) * 2 powi e"
    using p by simp
  then show ?thesis
    using False by (simp add: fl_def Let_def e_def)
qed

lemma fl_mono_pos:
  assumes "0 < x" "x \<le> y"
  shows "fl x \<le> fl y"
proof -
  define e1 where "e1 = max (ilog2 x - 52) (- 1074)"
  define e2 where "e2 = max (ilog2 y - 52) (- 1074)"
  have ypos: "0 < y" using assms by simp
  have fx: "fl x = of_int (round_half_even (x / 2 powi e1)) * 2 powi e1"
    using assms(1) by (simp add: fl_def Let_def e1_def)
  have fy: "fl y = of_int (round_half_even (y / 2 powi e2)) * 2 powi e2"
    using ypos by (simp add: fl_def Let_def e2_def)
  have le: "e1 \<le> e2"
    using ilog2_mono [OF assms] by (simp add: e1_def e2_def)
  show ?thesis
  proof (cases "e1 = e2")
    case True
    have "x / 2 powi e2 \<le> y / 2 powi e2"
      using assms(2) by (simp add: divide_right_mono)
    then have "round_half_even (x / 2 powi e2) \<le> round_half_even (y / 2 powi e2)"
      by (rule round_half_even_mono)
    then have "(of_int (round_half_even (x / 2 powi e2)) :: rat) \<le> of_int (round_half_even (y / 2 powi e2))"
      by (simp only: of_int_le_iff)
    then show ?thesis
      unfolding fx fy True by (intro mult_right_mono) simp_all
  next
    case False
    with le have lt: "e1 + 1 \<le> e2" by simp
    then have e2: "e2 = ilog2 y - 52" by (simp add: e1_def e2_def)
    have "(2::rat) powi 52 * 2 powi e2 = 2 powi (52 + e2)"
      by (simp add: power_int_add)
    also have "\<dots> \<le> y"
      using ilog2_bounds(1) [OF ypos] by (simp add: e2)
    finally have "of_int (2 ^ 52) \<le> y / 2 powi e2"
      by (simp add: pos_le_divide_eq)
    then have "round_half_even (of_int (2 ^ 52)) \<le> round_half_even (y / 2 powi e2)"
      by (rule round_half_even_mono)
    then have "2 ^ 52 \<le> round_half_even (y / 2 powi e2)"
      by (simp only: round_half_even_of_int)
    then have "(of_int (2 ^ 52) :: rat) \<le> of_int (round_half_even (y / 2 powi e2))"
      by (simp only: of_int_le_iff)
    then have "of_int (2 ^ 52) * 2 powi e2 \<le> fl y"
      unfolding fy by (intro mult_right_mono) simp_all
    then have lower: "2 powi (52 + e2) \<le> fl y"
      by (simp add: power_int_add)
    have "ilog2 x + 1 \<le> e1 + 53" by (simp add: e1_def)
    then have "(2::rat) powi (ilog2 x + 1) \<le> 2 powi (e1 + 53)"
      by (intro power_int_increasing) simp_all
    then have "x < 2 powi (e1 + 53)"
      using ilog2_bounds(2) [OF assms(1)] by linarith
    also have "(2::rat) powi (e1 + 53) = of_int (2 ^ 53) * 2 powi e1"
      by (simp add: power_int_add)
    finally have "x / 2 powi e1 \<le> of_int (2 ^ 53)"
      by (simp add: pos_divide_le_eq)
    then have "round_half_even (x / 2 powi e1) \<le> round_half_even (of_int (2 ^ 53))"
      by (rule round_half_even_mono)
    then have "round_half_even (x / 2 powi e1) \<le> 2 ^ 53"
      by (simp only: round_half_even_of_int)
    then have "(of_int (round_half_even (x / 2 powi e1)) :: rat) \<le> of_int (2 ^ 53)"
      by (simp only: of_int_le_iff)
    then have "fl x \<le> of_int (2 ^ 53) * 2 powi e1"
      unfolding fx by (intro mult_right_mono) simp_all
    also have "\<dots> = 2 powi (53 + e1)"
      by (simp add: power_int_add)
    also have "\<dots> \<le> 2 powi (52 + e2)"
      using lt by (intro power_int_increasing) simp_all
    finally show ?thesis using lower by linarith
  qed
qed

lemma fl_mono:
  assumes "x \<le> y"
  shows "fl x \<le> fl y"
proof -
  consider "0 < x" | "x \<le> 0" "0 \<le> y" | "y < 0" by linarith
  then show ?thesis
  proof cases
    case 1
    then show ?thesis using assms by (rule fl_mono_pos)
  next
    case 2
    have "0 \<le> fl (- x)" using 2(1) by (intro fl_nonneg) simp
    then have "fl x \<le> 0" by (simp add: fl_minus)
    also have "0 \<le> fl y" using 2(2) by (rule fl_nonneg)
    finally show ?thesis .
  next
    case 3
    have "fl (- y) \<le> fl (- x)"
      using 3 assms by (intro fl_mono_pos) simp_all
    then show ?thesis by (simp add: fl_minus)
  qed
qed

lemma fl_exact:
  assumes "\<bar>m\<bar> < 2 ^ 53" "- 1074 \<le> e"
  shows "fl (of_int m * 2 powi e) = of_int m * 2 powi e"
proof (cases "m = 0")
  case True
  then show ?thesis by (simp add: fl_def)
next
  case False
  define x :: rat where "x = of_int m * 2 powi e"
  define e' where "e' = max (ilog2 \<bar>x\<bar> - 52) (- 1074)"
  have xpos: "0 < \<bar>x\<bar>" using False by (simp add: x_def)
  have "\<bar>x\<bar> = of_int \<bar>m\<bar> * 2 powi e"
    by (simp add: x_def abs_mult)
  also have "\<dots> < of_int (2 ^ 53) * 2 powi e"
    using assms(1) by (intro mult_strict_right_mono) (simp_all only: of_int_less_iff zero_less_power_int zero_less_numeral)
  also have "\<dots> = 2 powi (53 + e)"
    by (simp add: power_int_add)
  finally have "(2::rat) powi ilog2 \<bar>x\<bar> < 2 powi (53 + e)"
    using ilog2_bounds(1) [OF xpos] by linarith
  then have "ilog2 \<bar>x\<bar> < 53 + e"
    using power_int_increasing [of "53 + e" "ilog2 \<bar>x\<bar>" "2::rat"]
    by (cases "ilog2 \<bar>x\<bar> < 53 + e") auto
  then have le: "e' \<le> e" using assms(2) by (simp add: e'_def)
  have "(2::rat) powi e = 2 powi (e - e') * 2 powi e'"
    by (simp flip: power_int_add)
  also have "(2::rat) powi (e - e') = of_int (2 ^ nat (e - e'))"
    using le by (simp add: power_int_def)
  finally have split: "(2::rat) powi e = of_int (2 ^ nat (e - e')) * 2 powi e'" .
  have "x / 2 powi e' = of_int (m * 2 ^ nat (e - e'))"
    by (simp add: x_def split)
  then have "round_half_even (x / 2 powi e') = m * 2 ^ nat (e - e')"
    by (simp only: round_half_even_of_int)
  then have "fl x = of_int (m * 2 ^ nat (e - e')) * 2 powi e'"
    using xpos by (simp add: fl_def Let_def e'_def)
  also have "\<dots> = x"
    by (simp add: x_def split)
  finally show ?thesis by (simp add: x_def)
qed

lemma fl_of_int: "\<bar>m\<bar> < 2 ^ 53 \<Longrightarrow> fl (of_int m) = of_int m"
  using fl_exact [of m 0] by simp

text \<open>The doubles that Python prints as \<^verbatim>\<open>0.1\<close> and \<^verbatim>\<open>1.1\<close>.\<close>

lemma fl_examples:
  "fl (1 / 10) = 3602879701896397 / 36028797018963968"
  "fl (11 / 10) = 2476979795053773 / 2251799813685248"
  by code_simp+

lemma fl_one: "fl 1 = 1"
  using fl_of_int [of 1] by simp

lemma fl_numeral: "numeral w < (2::int) ^ 53 \<Longrightarrow> fl (numeral w) = numeral w"
  using fl_of_int [of "numeral w"] by simp

lemma fl_abs_le_pow2:
  assumes "\<bar>x\<bar> \<le> 2 ^ k"
  shows "\<bar>fl x\<bar> \<le> 2 ^ k"
proof -
  have ex: "fl (2 ^ k) = 2 ^ k"
    using fl_exact [of 1 "int k"] by simp
  have "fl x \<le> fl (2 ^ k)" using assms by (intro fl_mono) simp
  moreover have "fl (- (2 ^ k)) \<le> fl x" using assms by (intro fl_mono) simp
  ultimately show ?thesis by (simp add: ex fl_minus abs_le_iff)
qed

lemma py_int_mono:
  assumes "x \<le> y"
  shows "py_int x \<le> py_int y"
proof -
  consider "0 \<le> x" | "x < 0" "0 \<le> y" | "y < 0" by linarith
  then show ?thesis
  proof cases
    case 1
    then show ?thesis using assms by (simp add: py_int_def floor_mono)
  next
    case 2
    have "\<lceil>x\<rceil> \<le> 0" using 2(1) by (simp add: ceiling_le_iff)
    moreover have "0 \<le> \<lfloor>y\<rfloor>" using 2(2) by simp
    ultimately have "\<lceil>x\<rceil> \<le> \<lfloor>y\<rfloor>" by linarith
    then show ?thesis using 2 by (simp add: py_int_def)
  next
    case 3
    then show ?thesis using assms by (simp add: py_int_def ceiling_mono)
  qed
qed

text \<open>
  What holds of the percentage as the code computes it: it is 100 when \<open>done = total\<close> and
  the total is not 0, it does not decrease when \<open>done\<close> grows, and it lies between 0 and
  100 when \<open>done \<le> total\<close>. The divisor is \<open>max 1 total\<close>, never 0.
\<close>

lemma pct_full:
  assumes "1 \<le> t"
  shows "pct (progress_html t t) = 100"
proof -
  have q: "(of_nat t :: rat) / of_nat (max 1 t) = 1" using assms by simp
  have "fl (fl 1 * 100) = 100"
    by (simp add: fl_one fl_numeral)
  then show ?thesis
    unfolding progress_html_def q by (simp add: py_int_def)
qed

lemma pct_mono:
  assumes "d1 \<le> d2"
  shows "pct (progress_html d1 t) \<le> pct (progress_html d2 t)"
proof -
  have "(of_nat d1 :: rat) / of_nat (max 1 t) \<le> of_nat d2 / of_nat (max 1 t)"
    using assms by (intro divide_right_mono) simp_all
  then have "fl (of_nat d1 / of_nat (max 1 t)) \<le> fl (of_nat d2 / of_nat (max 1 t))"
    by (rule fl_mono)
  then have "fl (fl (of_nat d1 / of_nat (max 1 t)) * 100) \<le> fl (fl (of_nat d2 / of_nat (max 1 t)) * 100)"
    by (intro fl_mono) simp
  then show ?thesis
    by (simp add: progress_html_def py_int_mono)
qed

lemma pct_range:
  assumes "d \<le> t"
  shows "0 \<le> pct (progress_html d t)" and "pct (progress_html d t) \<le> 100"
proof -
  have "pct (progress_html 0 t) \<le> pct (progress_html d t)"
    by (rule pct_mono) simp
  then show "0 \<le> pct (progress_html d t)" by (simp add: pct_zero_done)
  show "pct (progress_html d t) \<le> 100"
  proof (cases "t = 0")
    case True
    then show ?thesis using assms by (simp add: pct_zero_done)
  next
    case False
    then have "pct (progress_html d t) \<le> pct (progress_html t t)"
      using assms by (intro pct_mono)
    then show ?thesis using False by (simp add: pct_full)
  qed
qed

lemma frames_per_step_in_range:
  assumes "\<bar>speed\<bar> \<le> 2 ^ 1000"
  shows "frames_per_step speed =
           Inr (max 1 (py_int (fl (12 - fl (fl (of_int (speed - 1)) * fl (11 / 10))))))"
proof -
  define a where "a = fl (of_int (speed - 1))"
  define p where "p = fl (a * fl (11 / 10))"
  have "\<bar>speed - 1\<bar> \<le> 2 ^ 1001" using assms by simp
  then have "\<bar>of_int (speed - 1) :: rat\<bar> \<le> of_int (2 ^ 1001)"
    by (simp only: of_int_abs [symmetric] of_int_le_iff)
  then have a: "\<bar>a\<bar> \<le> 2 ^ 1001"
    unfolding a_def by (intro fl_abs_le_pow2) simp
  have "\<bar>fl (11 / 10)\<bar> \<le> 2 ^ 1"
    by (intro fl_abs_le_pow2) simp
  then have "\<bar>a * fl (11 / 10)\<bar> \<le> 2 ^ 1001 * 2 ^ 1"
    unfolding abs_mult using a by (intro mult_mono) simp_all
  then have "\<bar>a * fl (11 / 10)\<bar> \<le> 2 ^ 1002"
    by (simp only: power_add [symmetric]) simp
  then have p: "\<bar>p\<bar> \<le> 2 ^ 1002"
    unfolding p_def by (rule fl_abs_le_pow2)
  have "(2::rat) ^ 1001 < 2 ^ 1024" "(2::rat) ^ 1002 < 2 ^ 1024"
    by (simp_all only: power_strict_increasing_iff)
  then have "finite_double a" "finite_double p"
    using a p by (simp_all add: finite_double_def)
  then show ?thesis
    by (simp add: frames_per_step_def Let_def a_def p_def)
qed

lemma fl_bracket:
  assumes "of_int m1 * 2 powi e1 \<le> x" "x \<le> of_int m2 * 2 powi e2"
    and "\<bar>m1\<bar> < 2 ^ 53" "\<bar>m2\<bar> < 2 ^ 53" "- 1074 \<le> e1" "- 1074 \<le> e2"
  shows "of_int m1 * 2 powi e1 \<le> fl x" and "fl x \<le> of_int m2 * 2 powi e2"
proof -
  have "fl (of_int m1 * 2 powi e1) \<le> fl x" using assms(1) by (rule fl_mono)
  then show "of_int m1 * 2 powi e1 \<le> fl x"
    by (simp only: fl_exact [OF assms(3) assms(5)])
  have "fl x \<le> fl (of_int m2 * 2 powi e2)" using assms(2) by (rule fl_mono)
  then show "fl x \<le> of_int m2 * 2 powi e2"
    by (simp only: fl_exact [OF assms(4) assms(6)])
qed

lemma literal_1_1_bracket: "35 / 32 \<le> fl (11 / 10)" "fl (11 / 10) \<le> 71 / 64"
  using fl_bracket [of 35 "- 5" "11 / 10" 71 "- 6"] by simp_all

lemma frames_per_step_bracket:
  assumes "0 \<le> a" "a \<le> 9"
  shows "of_int (768 - 71 * a) / 64 \<le> fl (12 - fl (fl (of_int a) * fl (11 / 10)))"
    and "fl (12 - fl (fl (of_int a) * fl (11 / 10))) \<le> of_int (384 - 35 * a) / 32"
proof -
  have a: "fl (of_int a) = of_int a"
    using assms by (intro fl_of_int) simp
  have lo: "of_int (35 * a) * 2 powi (- 5) \<le> of_int a * fl (11 / 10)"
    using literal_1_1_bracket(1) assms(1)
    mult_left_mono [of "35 / 32" "fl (11 / 10)" "of_int a :: rat"] by simp
  have hi: "of_int a * fl (11 / 10) \<le> of_int (71 * a) * 2 powi (- 6)"
    using literal_1_1_bracket(2) assms(1)
    mult_left_mono [of "fl (11 / 10)" "71 / 64" "of_int a :: rat"] by simp
  have m: "\<bar>35 * a\<bar> < 2 ^ 53" "\<bar>71 * a\<bar> < 2 ^ 53" using assms by simp_all
  note p = fl_bracket [OF lo hi m]
  have lo2: "of_int (768 - 71 * a) * 2 powi (- 6) \<le> 12 - fl (of_int a * fl (11 / 10))"
    using p(2) by simp
  have hi2: "12 - fl (of_int a * fl (11 / 10)) \<le> of_int (384 - 35 * a) * 2 powi (- 5)"
    using p(1) by simp
  have m2: "\<bar>768 - 71 * a\<bar> < 2 ^ 53" "\<bar>384 - 35 * a\<bar> < 2 ^ 53" using assms by simp_all
  note q = fl_bracket [OF lo2 hi2 m2]
  show "of_int (768 - 71 * a) / 64 \<le> fl (12 - fl (fl (of_int a) * fl (11 / 10)))"
    using q(1) by (simp add: a)
  show "fl (12 - fl (fl (of_int a) * fl (11 / 10))) \<le> of_int (384 - 35 * a) / 32"
    using q(2) by (simp add: a)
qed

lemma frames_per_step_value:
  assumes "0 \<le> a" "a \<le> 9" "of_int r \<le> (of_int (768 - 71 * a) / 64 :: rat)"
    "(of_int (384 - 35 * a) / 32 :: rat) < of_int r + 1" "1 \<le> r"
  shows "frames_per_step (a + 1) = Inr r"
proof -
  note b = frames_per_step_bracket [OF assms(1,2)]
  have "0 \<le> fl (12 - fl (fl (of_int a) * fl (11 / 10)))"
    using b(1) assms(3,5) by linarith
  moreover have "\<lfloor>fl (12 - fl (fl (of_int a) * fl (11 / 10)))\<rfloor> = r"
    using b assms(3,4) by (intro floor_unique) linarith+
  ultimately have "max 1 (py_int (fl (12 - fl (fl (of_int a) * fl (11 / 10))))) = r"
    using assms(5) by (simp add: py_int_def)
  then show ?thesis
    using frames_per_step_in_range [of "a + 1"] assms(1,2) by simp
qed

lemma frames_per_step_values:
  "frames_per_step 1 = Inr 12" "frames_per_step 2 = Inr 10" "frames_per_step 3 = Inr 9"
  "frames_per_step 4 = Inr 8" "frames_per_step 5 = Inr 7" "frames_per_step 6 = Inr 6"
  "frames_per_step 7 = Inr 5" "frames_per_step 8 = Inr 4" "frames_per_step 9 = Inr 3"
  "frames_per_step 10 = Inr 2"
  using frames_per_step_value [of 0 12] frames_per_step_value [of 1 10]
    frames_per_step_value [of 2 9] frames_per_step_value [of 3 8] frames_per_step_value [of 4 7]
    frames_per_step_value [of 5 6] frames_per_step_value [of 6 5] frames_per_step_value [of 7 4]
    frames_per_step_value [of 8 3] frames_per_step_value [of 9 2]
  by simp_all

lemma frames_per_step_10: "frames_per_step 10 = Inr 2"
  by (rule frames_per_step_values(10))

lemma frames_per_step_total:
  assumes "\<bar>speed\<bar> \<le> 2 ^ 1000"
  shows "\<exists>fps. frames_per_step speed = Inr fps \<and> 1 \<le> fps"
  using frames_per_step_in_range [OF assms] by simp

section \<open>The trace of the loop\<close>

lemma yielded_append: "yielded (xs @ ys) = yielded xs @ yielded ys"
  by (induction xs rule: yielded.induct) simp_all

lemma yielded_pairs:
  "yielded (concat (map (\<lambda>f. [Yield (h f), Sleep (d f)]) xs)) = map h xs"
  by (induction xs) simp_all

lemma yielded_approach:
  "yielded (approach arr fps i checked) =
     map (\<lambda>f. \<lparr>status = ''Checking index '' @ str (int i) @ ellipsis,
               image = Some (draw_frame arr (int i) (- 1) checked
                        (fl (1 / 2 * ease (fl (of_nat (f + 1) / of_int fps))))),
               step = format_steps 2,
               progress = progress_html i (length arr)\<rparr>) [0..<nat fps]"
  unfolding approach_def Let_def by (rule yielded_pairs)

lemma yielded_found_pulses:
  "yielded (found_pulses arr target i checked) =
     map (\<lambda>p. \<lparr>status = ''FOUND '' @ str target @ '' at index '' @ str (int i) @ ''!,'',
               image = Some (draw_frame arr (int i) (int i) checked (pulse p)),
               step = format_steps 3,
               progress = progress_html (length arr) (length arr)\<rparr>) [0..<6]"
  unfolding found_pulses_def by (rule yielded_pairs)

lemma format_steps_distinct:
  "format_steps 2 \<noteq> format_steps 3" "format_steps 4 \<noteq> format_steps 3"
  "format_steps 1 \<noteq> format_steps 3" "format_steps 5 \<noteq> format_steps 3"
  "format_steps 0 \<noteq> format_steps 3"
  by (simp_all add: format_steps_def)

lemma search_loop_found:
  "tg \<in> set rest \<Longrightarrow>
   \<exists>k pre. k < length rest \<and> rest ! k = tg \<and> (\<forall>j<k. rest ! j \<noteq> tg) \<and>
     yielded (search_loop arr tg fps i c rest) =
       pre @ yielded (found_pulses arr tg (i + k) (c \<union> {i..i + k})) \<and>
     (\<forall>fr\<in>set pre. step fr \<noteq> format_steps 3 \<and>
        (\<exists>v. image fr = Some v \<and> found_index v = - 1 \<and>
             int i \<le> current_index v \<and> current_index v \<le> int (i + k) \<and>
             checked_indices v \<subseteq> c \<union> {i..i + k}))"
proof (induction rest arbitrary: i c)
  case Nil
  then show ?case by simp
next
  case (Cons val rest)
  let ?cmp = "\<lparr>status = ''Comparing '' @ str val @ '' with '' @ str tg @ ellipsis,
              image = Some (draw_frame arr (int i) (- 1) c (fl (8 / 10))),
              step = format_steps 2,
              progress = progress_html (i + 1) (length arr)\<rparr>"
  let ?adv = "\<lparr>status = ''No match, moving to index '' @ str (int i + 1),
              image = Some (draw_frame arr (int i) (- 1) (insert i c) (fl (2 / 10))),
              step = format_steps 4,
              progress = progress_html (i + 1) (length arr)\<rparr>"
  let ?head = "yielded (approach arr fps i c) @ [?cmp]"
  have head_ok: "\<forall>fr\<in>set ?head. step fr \<noteq> format_steps 3 \<and>
        (\<exists>v. image fr = Some v \<and> found_index v = - 1 \<and> current_index v = int i \<and>
             checked_indices v = c)"
    by (auto simp: yielded_approach draw_frame_def format_steps_distinct)
  show ?case
  proof (cases "val = tg")
    case True
    have "yielded (search_loop arr tg fps i c (val # rest)) =
            ?head @ yielded (found_pulses arr tg (i + 0) (c \<union> {i..i + 0}))"
      using True by (simp add: yielded_append Let_def)
    moreover have "\<forall>fr\<in>set ?head. step fr \<noteq> format_steps 3 \<and>
        (\<exists>v. image fr = Some v \<and> found_index v = - 1 \<and>
             int i \<le> current_index v \<and> current_index v \<le> int (i + 0) \<and>
             checked_indices v \<subseteq> c \<union> {i..i + 0})"
      using head_ok by fastforce
    moreover have "0 < length (val # rest) \<and> (val # rest) ! 0 = tg \<and> (\<forall>j<0. (val # rest) ! j \<noteq> tg)"
      using True by simp
    ultimately show ?thesis by blast
  next
    case False
    with Cons.prems have "tg \<in> set rest" by simp
    from Cons.IH [OF this, of "i + 1" "insert i c"]
    obtain k pre where k: "k < length rest" "rest ! k = tg" "\<forall>j<k. rest ! j \<noteq> tg"
      and split: "yielded (search_loop arr tg fps (i + 1) (insert i c) rest) =
                    pre @ yielded (found_pulses arr tg (i + 1 + k) (insert i c \<union> {i + 1..i + 1 + k}))"
      and pre: "\<forall>fr\<in>set pre. step fr \<noteq> format_steps 3 \<and>
        (\<exists>v. image fr = Some v \<and> found_index v = - 1 \<and>
             int (i + 1) \<le> current_index v \<and> current_index v \<le> int (i + 1 + k) \<and>
             checked_indices v \<subseteq> insert i c \<union> {i + 1..i + 1 + k})"
      by blast
    have sets: "insert i c \<union> {i + 1..i + 1 + k} = c \<union> {i..i + Suc k}"
      by auto
    have "yielded (search_loop arr tg fps i c (val # rest)) =
            (?head @ [?adv] @ pre) @ yielded (found_pulses arr tg (i + Suc k) (c \<union> {i..i + Suc k}))"
      using False split sets by (simp add: yielded_append Let_def)
    moreover have "\<forall>fr\<in>set (?head @ [?adv] @ pre). step fr \<noteq> format_steps 3 \<and>
        (\<exists>v. image fr = Some v \<and> found_index v = - 1 \<and>
             int i \<le> current_index v \<and> current_index v \<le> int (i + Suc k) \<and>
             checked_indices v \<subseteq> c \<union> {i..i + Suc k})"
    proof
      fix fr assume "fr \<in> set (?head @ [?adv] @ pre)"
      then consider "fr \<in> set ?head" | "fr = ?adv" | "fr \<in> set pre" by auto
      then show "step fr \<noteq> format_steps 3 \<and>
        (\<exists>v. image fr = Some v \<and> found_index v = - 1 \<and>
             int i \<le> current_index v \<and> current_index v \<le> int (i + Suc k) \<and>
             checked_indices v \<subseteq> c \<union> {i..i + Suc k})"
      proof cases
        case 1
        with head_ok show ?thesis by fastforce
      next
        case 2
        then show ?thesis by (auto simp: draw_frame_def format_steps_distinct)
      next
        case 3
        with pre sets show ?thesis by fastforce
      qed
    qed
    moreover have "Suc k < length (val # rest) \<and> (val # rest) ! Suc k = tg \<and>
                   (\<forall>j<Suc k. (val # rest) ! j \<noteq> tg)"
      using k False by (auto simp: less_Suc_eq_0_disj)
    ultimately show ?thesis by blast
  qed
qed

section \<open>A target that is not in the array\<close>

text \<open>
  C4. When a target is supplied and does not occur in the array, the run returns
  normally after yielding exactly one frame: its status is the target followed by
  \<^verbatim>\<open> is NOT in the list.\<close>, it carries no image, no line of the step panel is active
  (so no Start, Compare, Found, Advance or End step is shown), and its progress is 0.
  This holds for every speed, since the speed is not looked at on this path.
\<close>

theorem absent_target_single_frame:
  assumes "tg \<notin> set arr"
  shows "\<exists>f. linear_search_animated arr (Some tg) speed = Inr [Yield f]
           \<and> frames_of (linear_search_animated arr (Some tg) speed) = [f]
           \<and> status f = str tg @ '' is NOT in the list.''
           \<and> image f = None
           \<and> step f = [False, False, False, False, False]
           \<and> pct (progress f) = 0"
  using assms
  by (simp add: linear_search_animated_def frames_of_def format_steps_def pct_zero_done)

theorem absent_target_single_frame_witness:
  "\<exists>f. linear_search_animated [1, 2, 3] (Some 99) 5 = Inr [Yield f]
       \<and> frames_of (linear_search_animated [1, 2, 3] (Some 99) 5) = [f]
       \<and> status f = ''99 is NOT in the list.''
       \<and> image f = None
       \<and> step f = [False, False, False, False, False]
       \<and> pct (progress f) = 0"
proof -
  have absent: "(99::int) \<notin> set [1, 2, 3]" by simp
  have text99: "str 99 = ''99''" by code_simp
  show ?thesis
    using absent_target_single_frame [OF absent, of 5] by (simp add: text99)
qed

section \<open>A target that is in the array\<close>

lemma frames_of_present:
  assumes "tg \<in> set arr" "frames_per_step speed = Inr fps"
  shows "frames_of (linear_search_animated arr (Some tg) speed) =
           \<lparr>status = ''Starting search'' @ ellipsis,
            image = Some (draw_frame arr (- 1) (- 1) {} 0),
            step = format_steps 1,
            progress = progress_html 0 (length arr)\<rparr> #
           yielded (search_loop arr tg fps 0 {} arr)"
    and "\<exists>es. linear_search_animated arr (Some tg) speed = Inr es"
  using assms by (simp_all add: linear_search_animated_def frames_of_def)

lemma found_pulse_frames:
  assumes "fr \<in> set (yielded (found_pulses arr tg i c))"
  shows "step fr = format_steps 3
         \<and> progress fr = progress_html (length arr) (length arr)
         \<and> image fr \<noteq> None
         \<and> current_index (the (image fr)) = int i
         \<and> found_index (the (image fr)) = int i
         \<and> checked_indices (the (image fr)) = c"
  using assms by (auto simp: yielded_found_pulses draw_frame_def)

lemma length_found_pulses: "length (yielded (found_pulses arr tg i c)) = 6"
  by (simp add: yielded_found_pulses)

text \<open>
  C1. When the target occurs in the array (and the speed is an int of magnitude at most
  \<open>2 ^ 1000\<close>, so that line 258 does not raise), the run returns normally and its frames
  end with exactly six frames of the Found step. All six show the same index \<open>i\<close> as
  current and as found index, \<open>arr ! i\<close> is the target, and their progress is 100. No
  earlier frame is a Found frame, and no frame shows an index after \<open>i\<close>.
\<close>

theorem found_phase:
  assumes "tg \<in> set arr" and "\<bar>speed\<bar> \<le> 2 ^ 1000"
  shows "\<exists>es i pre pulses.
           linear_search_animated arr (Some tg) speed = Inr es
         \<and> yielded es = pre @ pulses
         \<and> i < length arr \<and> arr ! i = tg
         \<and> length pulses = 6
         \<and> (\<forall>f\<in>set pulses. step f = format_steps 3 \<and> pct (progress f) = 100
               \<and> (\<exists>v. image f = Some v \<and> current_index v = int i \<and> found_index v = int i))
         \<and> (\<forall>f\<in>set pre. step f \<noteq> format_steps 3
               \<and> (\<exists>v. image f = Some v \<and> found_index v = - 1 \<and> current_index v \<le> int i))"
proof -
  from frames_per_step_total [OF assms(2)]
  obtain fps where fps: "frames_per_step speed = Inr fps" by blast
  let ?start = "\<lparr>status = ''Starting search'' @ ellipsis,
            image = Some (draw_frame arr (- 1) (- 1) {} 0),
            step = format_steps 1,
            progress = progress_html 0 (length arr)\<rparr>"
  let ?es = "[Yield ?start, Sleep (fl (18 / 100))] @ search_loop arr tg fps 0 {} arr"
  have run: "linear_search_animated arr (Some tg) speed = Inr ?es"
    using assms(1) fps by (simp add: linear_search_animated_def)
  from search_loop_found [OF assms(1), of arr fps 0 "{}"]
  obtain k pre where k: "k < length arr" "arr ! k = tg"
    and split: "yielded (search_loop arr tg fps 0 {} arr) =
                  pre @ yielded (found_pulses arr tg k {0..k})"
    and pre: "\<forall>fr\<in>set pre. step fr \<noteq> format_steps 3 \<and>
        (\<exists>v. image fr = Some v \<and> found_index v = - 1 \<and>
             0 \<le> current_index v \<and> current_index v \<le> int k \<and>
             checked_indices v \<subseteq> {0..k})"
    by auto
  let ?pulses = "yielded (found_pulses arr tg k {0..k})"
  have y: "yielded ?es = (?start # pre) @ ?pulses"
    using split by simp
  have nonempty: "1 \<le> length arr" using k(1) by simp
  have pulses: "\<forall>f\<in>set ?pulses. step f = format_steps 3 \<and> pct (progress f) = 100
               \<and> (\<exists>v. image f = Some v \<and> current_index v = int k \<and> found_index v = int k)"
    using found_pulse_frames [of _ arr tg k "{0..k}"] pct_full [OF nonempty] by fastforce
  have pre': "\<forall>f\<in>set (?start # pre). step f \<noteq> format_steps 3
               \<and> (\<exists>v. image f = Some v \<and> found_index v = - 1 \<and> current_index v \<le> int k)"
    using pre by (auto simp: draw_frame_def format_steps_distinct)
  show ?thesis
    using run y k length_found_pulses [of arr tg k "{0..k}"] pulses pre' by blast
qed

theorem found_phase_witness:
  "(9::int) \<in> set [3, 7, 9, 2] \<and> \<bar>5::int\<bar> \<le> 2 ^ 1000 \<and>
   (\<exists>es pre pulses.
           linear_search_animated [3, 7, 9, 2] (Some 9) 5 = Inr es
         \<and> yielded es = pre @ pulses
         \<and> length pulses = 6
         \<and> (\<forall>f\<in>set pulses. step f = format_steps 3 \<and> pct (progress f) = 100
               \<and> (\<exists>v. image f = Some v \<and> current_index v = 2 \<and> found_index v = 2))
         \<and> (\<forall>f\<in>set pre. step f \<noteq> format_steps 3
               \<and> (\<exists>v. image f = Some v \<and> found_index v = - 1 \<and> current_index v \<le> 2)))"
proof -
  have present: "(9::int) \<in> set [3, 7, 9, 2]" by simp
  have speed: "\<bar>5::int\<bar> \<le> 2 ^ 1000" by simp
  from found_phase [OF present speed]
  obtain es i pre pulses where
    run: "linear_search_animated [3, 7, 9, 2] (Some 9) 5 = Inr es"
      "yielded es = pre @ pulses" "length pulses = 6"
    and i: "i < length [3, 7, 9, 2 :: int]" "[3, 7, 9, 2 :: int] ! i = 9"
    and frames: "\<forall>f\<in>set pulses. step f = format_steps 3 \<and> pct (progress f) = 100
               \<and> (\<exists>v. image f = Some v \<and> current_index v = int i \<and> found_index v = int i)"
       "\<forall>f\<in>set pre. step f \<noteq> format_steps 3
               \<and> (\<exists>v. image f = Some v \<and> found_index v = - 1 \<and> current_index v \<le> int i)"
    by blast
  have "i = 0 \<or> i = 1 \<or> i = 2 \<or> i = 3" using i(1) by auto
  then have "i = 2" using i(2) by auto
  then show ?thesis using present speed run frames by auto
qed

text \<open>
  C10. When the target occurs in the array, also more than once, the Found frames are
  at the smallest index \<open>i\<close> that holds the target. Every frame of the run shows a current
  index of at most \<open>i\<close> and a checked set within \<open>{0..i}\<close>, so no later occurrence is
  visited or marked checked.
\<close>

theorem first_occurrence_found:
  assumes "tg \<in> set arr" and "\<bar>speed\<bar> \<le> 2 ^ 1000"
  shows "\<exists>i. i < length arr \<and> arr ! i = tg \<and> (\<forall>j<i. arr ! j \<noteq> tg)
         \<and> (\<exists>f\<in>set (frames_of (linear_search_animated arr (Some tg) speed)).
               step f = format_steps 3)
         \<and> (\<forall>f\<in>set (frames_of (linear_search_animated arr (Some tg) speed)).
               \<exists>v. image f = Some v
                 \<and> (step f = format_steps 3 \<longrightarrow> found_index v = int i \<and> current_index v = int i)
                 \<and> current_index v \<le> int i
                 \<and> checked_indices v \<subseteq> {0..i})"
proof -
  from frames_per_step_total [OF assms(2)]
  obtain fps where fps: "frames_per_step speed = Inr fps" by blast
  let ?start = "\<lparr>status = ''Starting search'' @ ellipsis,
            image = Some (draw_frame arr (- 1) (- 1) {} 0),
            step = format_steps 1,
            progress = progress_html 0 (length arr)\<rparr>"
  from search_loop_found [OF assms(1), of arr fps 0 "{}"]
  obtain k pre where k: "k < length arr" "arr ! k = tg" "\<forall>j<k. arr ! j \<noteq> tg"
    and split: "yielded (search_loop arr tg fps 0 {} arr) =
                  pre @ yielded (found_pulses arr tg k {0..k})"
    and pre: "\<forall>fr\<in>set pre. step fr \<noteq> format_steps 3 \<and>
        (\<exists>v. image fr = Some v \<and> found_index v = - 1 \<and>
             0 \<le> current_index v \<and> current_index v \<le> int k \<and>
             checked_indices v \<subseteq> {0..k})"
    by auto
  let ?pulses = "yielded (found_pulses arr tg k {0..k})"
  have fs: "frames_of (linear_search_animated arr (Some tg) speed) = (?start # pre) @ ?pulses"
    using frames_of_present(1) [OF assms(1) fps] split by simp
  have some: "\<exists>f\<in>set ?pulses. step f = format_steps 3"
    by (simp add: yielded_found_pulses) (rule exI [of _ 0], simp)
  have pulses: "\<forall>f\<in>set ?pulses. \<exists>v. image f = Some v
                 \<and> (step f = format_steps 3 \<longrightarrow> found_index v = int k \<and> current_index v = int k)
                 \<and> current_index v \<le> int k \<and> checked_indices v \<subseteq> {0..k}"
    by (auto simp: yielded_found_pulses draw_frame_def)
  have pre': "\<forall>f\<in>set (?start # pre). \<exists>v. image f = Some v
                 \<and> (step f = format_steps 3 \<longrightarrow> found_index v = int k \<and> current_index v = int k)
                 \<and> current_index v \<le> int k \<and> checked_indices v \<subseteq> {0..k}"
    using pre by (auto simp: draw_frame_def format_steps_distinct)
  have all: "\<forall>f\<in>set (frames_of (linear_search_animated arr (Some tg) speed)).
               \<exists>v. image f = Some v
                 \<and> (step f = format_steps 3 \<longrightarrow> found_index v = int k \<and> current_index v = int k)
                 \<and> current_index v \<le> int k \<and> checked_indices v \<subseteq> {0..k}"
    unfolding fs using pulses pre' by (metis Un_iff set_append)
  have ex: "\<exists>f\<in>set (frames_of (linear_search_animated arr (Some tg) speed)). step f = format_steps 3"
    unfolding fs using some by auto
  show ?thesis using k all ex by blast
qed

theorem first_occurrence_found_witness:
  "(9::int) \<in> set [4, 9, 7, 9] \<and> \<bar>5::int\<bar> \<le> 2 ^ 1000 \<and>
   (\<exists>f\<in>set (frames_of (linear_search_animated [4, 9, 7, 9] (Some 9) 5)).
               step f = format_steps 3)
   \<and> (\<exists>i. i = 1 \<and> (\<forall>f\<in>set (frames_of (linear_search_animated [4, 9, 7, 9] (Some 9) 5)).
               \<exists>v. image f = Some v
                 \<and> (step f = format_steps 3 \<longrightarrow> found_index v = int i \<and> current_index v = int i)
                 \<and> current_index v \<le> int i
                 \<and> checked_indices v \<subseteq> {0..i}))"
proof -
  have present: "(9::int) \<in> set [4, 9, 7, 9]" by simp
  have speed: "\<bar>5::int\<bar> \<le> 2 ^ 1000" by simp
  from first_occurrence_found [OF present speed]
  obtain i where i: "i < length [4, 9, 7, 9 :: int]" "[4, 9, 7, 9 :: int] ! i = 9"
      "\<forall>j<i. [4, 9, 7, 9 :: int] ! j \<noteq> 9"
    and ex: "\<exists>f\<in>set (frames_of (linear_search_animated [4, 9, 7, 9] (Some 9) 5)). step f = format_steps 3"
    and all: "\<forall>f\<in>set (frames_of (linear_search_animated [4, 9, 7, 9] (Some 9) 5)).
               \<exists>v. image f = Some v
                 \<and> (step f = format_steps 3 \<longrightarrow> found_index v = int i \<and> current_index v = int i)
                 \<and> current_index v \<le> int i
                 \<and> checked_indices v \<subseteq> {0..i}"
    by blast
  have "i = 0 \<or> i = 1 \<or> i = 2 \<or> i = 3" using i(1) by auto
  moreover have "i \<noteq> 0"
  proof
    assume "i = 0"
    with i(2) show False by simp
  qed
  moreover have "i \<noteq> 2"
  proof
    assume "i = 2"
    with i(2) show False by simp
  qed
  moreover have "i \<noteq> 3" using i(3) by (auto dest: spec [of _ 1])
  ultimately have "i = 1" by blast
  then show ?thesis using present speed ex all by blast
qed

section \<open>The checked set and the current index\<close>

lemma format_steps_inject: "format_steps a = format_steps b \<Longrightarrow> a \<in> {1..5} \<Longrightarrow> a = b"
  by (auto simp: format_steps_def)

lemma minus_one_not_index: "(- 1 :: int) \<notin> int ` c"
  by auto

lemma search_loop_checked_state:
  assumes "\<forall>x\<in>c. x < i"
  shows "\<forall>fr\<in>set (yielded (search_loop arr tg fps i c rest)). \<exists>v. image fr = Some v \<and>
      (found_index v \<noteq> - 1 \<longrightarrow> found_index v \<in> int ` checked_indices v) \<and>
      (step fr = format_steps 2 \<or> step fr = format_steps 5 \<longrightarrow>
         current_index v \<notin> int ` checked_indices v) \<and>
      (step fr = format_steps 3 \<or> step fr = format_steps 4 \<longrightarrow>
         current_index v \<in> int ` checked_indices v) \<and>
      step fr \<in> format_steps ` {2, 3, 4, 5}"
  using assms
proof (induction rest arbitrary: i c)
  case Nil
  then show ?case by (simp add: draw_frame_def format_steps_def minus_one_not_index)
next
  case (Cons val rest)
  have inv: "\<forall>x\<in>insert i c. x < i + 1" using Cons.prems by auto
  have notin: "int i \<notin> int ` c" using Cons.prems by auto
  note IH = Cons.IH [OF inv]
  show ?case
  proof (cases "val = tg")
    case True
    then show ?thesis
      using notin
      by (auto simp: yielded_append yielded_approach yielded_found_pulses Let_def
            draw_frame_def format_steps_def)
  next
    case False
    then show ?thesis
      using notin IH
      by (auto simp: yielded_append yielded_approach Let_def draw_frame_def format_steps_def)
  qed
qed

lemma frames_of_cases:
  "frames_of (linear_search_animated arr target speed) = [] \<or>
   (\<exists>f. frames_of (linear_search_animated arr target speed) = [f] \<and> image f = None) \<or>
   (\<exists>tg fps. target = Some tg \<and> tg \<in> set arr \<and> frames_per_step speed = Inr fps \<and> 1 \<le> fps \<and>
      frames_of (linear_search_animated arr target speed) =
        \<lparr>status = ''Starting search'' @ ellipsis,
         image = Some (draw_frame arr (- 1) (- 1) {} 0),
         step = format_steps 1,
         progress = progress_html 0 (length arr)\<rparr> #
        yielded (search_loop arr tg fps 0 {} arr))"
proof (cases target)
  case None
  then show ?thesis by (simp add: linear_search_animated_def frames_of_def)
next
  case (Some tg)
  show ?thesis
  proof (cases "tg \<in> set arr")
    case False
    then show ?thesis using Some by (simp add: linear_search_animated_def frames_of_def)
  next
    case True
    show ?thesis
    proof (cases "frames_per_step speed")
      case (Inl e)
      then show ?thesis using Some True by (simp add: linear_search_animated_def frames_of_def)
    next
      case (Inr fps)
      then have "1 \<le> fps"
        by (auto simp: frames_per_step_def Let_def split: if_splits)
      then show ?thesis
        using Some True Inr frames_of_present(1) [OF True Inr] by blast
    qed
  qed
qed

text \<open>
  C3, as the code has it. In every frame that carries an image, a found index that is
  set is a member of the checked set. The current index is not a member of the checked
  set in the Start frame, in the approach and comparison frames (step 2) and in the End
  frame; it is a member in the Advance frame (step 4) and in the Found frames (step 3),
  which are drawn after line 292 has added the index. Every such frame shows one of the
  five steps. The claim as written, with the current index never in the checked set,
  fails on the one-element array \<open>[5]\<close> with target 5.
\<close>

theorem checked_membership_by_step:
  "\<forall>f\<in>set (frames_of (linear_search_animated arr target speed)). \<forall>v. image f = Some v \<longrightarrow>
      (found_index v \<noteq> - 1 \<longrightarrow> found_index v \<in> int ` checked_indices v) \<and>
      (step f = format_steps 1 \<or> step f = format_steps 2 \<or> step f = format_steps 5 \<longrightarrow>
         current_index v \<notin> int ` checked_indices v) \<and>
      (step f = format_steps 3 \<or> step f = format_steps 4 \<longrightarrow>
         current_index v \<in> int ` checked_indices v) \<and>
      step f \<in> format_steps ` {1, 2, 3, 4, 5}"
proof -
  consider "frames_of (linear_search_animated arr target speed) = []"
    | f where "frames_of (linear_search_animated arr target speed) = [f]" "image f = None"
    | tg fps where "frames_of (linear_search_animated arr target speed) =
        \<lparr>status = ''Starting search'' @ ellipsis,
         image = Some (draw_frame arr (- 1) (- 1) {} 0),
         step = format_steps 1,
         progress = progress_html 0 (length arr)\<rparr> #
        yielded (search_loop arr tg fps 0 {} arr)"
    using frames_of_cases [of arr target speed] by blast
  then show ?thesis
  proof cases
    case 1
    then show ?thesis by simp
  next
    case 2
    then show ?thesis by simp
  next
    case 3
    have "\<forall>x\<in>{}. x < (0::nat)" by simp
    from search_loop_checked_state [OF this, of arr tg fps arr]
    have loop: "\<forall>fr\<in>set (yielded (search_loop arr tg fps 0 {} arr)). \<exists>v. image fr = Some v \<and>
      (found_index v \<noteq> - 1 \<longrightarrow> found_index v \<in> int ` checked_indices v) \<and>
      (step fr = format_steps 2 \<or> step fr = format_steps 5 \<longrightarrow>
         current_index v \<notin> int ` checked_indices v) \<and>
      (step fr = format_steps 3 \<or> step fr = format_steps 4 \<longrightarrow>
         current_index v \<in> int ` checked_indices v) \<and>
      step fr \<in> format_steps ` {2, 3, 4, 5}" .
    show ?thesis
      unfolding 3
    proof (intro ballI allI impI)
      fix f v
      assume f: "f \<in> set (\<lparr>status = ''Starting search'' @ ellipsis,
         image = Some (draw_frame arr (- 1) (- 1) {} 0),
         step = format_steps 1,
         progress = progress_html 0 (length arr)\<rparr> #
        yielded (search_loop arr tg fps 0 {} arr))" and v: "image f = Some v"
      show "(found_index v \<noteq> - 1 \<longrightarrow> found_index v \<in> int ` checked_indices v) \<and>
      (step f = format_steps 1 \<or> step f = format_steps 2 \<or> step f = format_steps 5 \<longrightarrow>
         current_index v \<notin> int ` checked_indices v) \<and>
      (step f = format_steps 3 \<or> step f = format_steps 4 \<longrightarrow>
         current_index v \<in> int ` checked_indices v) \<and>
      step f \<in> format_steps ` {1, 2, 3, 4, 5}"
      proof (cases "f \<in> set (yielded (search_loop arr tg fps 0 {} arr))")
        case True
        with loop v have
          a: "found_index v \<noteq> - 1 \<longrightarrow> found_index v \<in> int ` checked_indices v"
          and b: "step f = format_steps 2 \<or> step f = format_steps 5 \<longrightarrow>
                  current_index v \<notin> int ` checked_indices v"
          and c: "step f = format_steps 3 \<or> step f = format_steps 4 \<longrightarrow>
                  current_index v \<in> int ` checked_indices v"
          and d: "step f \<in> format_steps ` {2, 3, 4, 5}"
          by fastforce+
        from d have "step f \<noteq> format_steps 1" by (auto simp: format_steps_def)
        with a b c d show ?thesis by auto
      next
        case False
        with f have "f = \<lparr>status = ''Starting search'' @ ellipsis,
         image = Some (draw_frame arr (- 1) (- 1) {} 0),
         step = format_steps 1,
         progress = progress_html 0 (length arr)\<rparr>" by simp
        with v show ?thesis by (auto simp: draw_frame_def format_steps_def)
      qed
    qed
  qed
qed

lemma single_element_run_pulse:
  "\<lparr>status = ''FOUND '' @ str 5 @ '' at index '' @ str (int 0) @ ''!,'',
    image = Some (draw_frame [5] (int 0) (int 0) {0} (pulse 0)),
    step = format_steps 3,
    progress = progress_html (length [5::int]) (length [5::int])\<rparr>
   \<in> set (frames_of (linear_search_animated [5] (Some 5) 10))"
proof -
  have present: "(5::int) \<in> set [5]" by simp
  show ?thesis
    unfolding frames_of_present(1) [OF present frames_per_step_10]
    by (simp add: yielded_append yielded_found_pulses Let_def del: upt_Suc)
qed

theorem current_index_checked_counterexample:
  "\<not> (\<forall>f\<in>set (frames_of (linear_search_animated [5] (Some 5) 10)). \<forall>v. image f = Some v \<longrightarrow>
        (found_index v \<noteq> - 1 \<longrightarrow> found_index v \<in> int ` checked_indices v) \<and>
        current_index v \<notin> int ` checked_indices v)"
proof
  assume "\<forall>f\<in>set (frames_of (linear_search_animated [5] (Some 5) 10)). \<forall>v. image f = Some v \<longrightarrow>
        (found_index v \<noteq> - 1 \<longrightarrow> found_index v \<in> int ` checked_indices v) \<and>
        current_index v \<notin> int ` checked_indices v"
  from bspec [OF this single_element_run_pulse]
  show False by (simp add: draw_frame_def)
qed

theorem checked_membership_by_step_witness:
  "\<exists>f\<in>set (frames_of (linear_search_animated [5] (Some 5) 10)).
      step f = format_steps 3 \<and>
      (\<exists>v. image f = Some v \<and> found_index v \<in> int ` checked_indices v
           \<and> current_index v \<in> int ` checked_indices v)"
proof -
  from bspec [OF checked_membership_by_step [of "[5]" "Some 5" 10] single_element_run_pulse]
  show ?thesis
    using single_element_run_pulse
    by (intro bexI [where x = "\<lparr>status = ''FOUND '' @ str 5 @ '' at index '' @ str (int 0) @ ''!,'',
    image = Some (draw_frame [5] (int 0) (int 0) {0} (pulse 0)),
    step = format_steps 3,
    progress = progress_html (length [5::int]) (length [5::int])\<rparr>"])
       (simp_all add: draw_frame_def)
qed

section \<open>The checked set along a run\<close>

lemma sorted_wrt_all_pairs:
  "(\<And>x y. x \<in> set xs \<Longrightarrow> y \<in> set xs \<Longrightarrow> P x y) \<Longrightarrow> sorted_wrt P xs"
  by (induction xs) auto

lemma search_loop_checked_grows:
  "sorted_wrt (\<lambda>a b. checked_indices (the (image a)) \<subseteq> checked_indices (the (image b)))
     (yielded (search_loop arr tg fps i c rest))
   \<and> (\<forall>fr\<in>set (yielded (search_loop arr tg fps i c rest)).
         image fr \<noteq> None \<and> c \<subseteq> checked_indices (the (image fr)))"
proof (induction rest arbitrary: i c)
  case Nil
  then show ?case by (simp add: draw_frame_def)
next
  case (Cons val rest)
  let ?G = "\<lambda>a b. checked_indices (the (image a)) \<subseteq> checked_indices (the (image b))"
  let ?cmp = "\<lparr>status = ''Comparing '' @ str val @ '' with '' @ str tg @ ellipsis,
              image = Some (draw_frame arr (int i) (- 1) c (fl (8 / 10))),
              step = format_steps 2,
              progress = progress_html (i + 1) (length arr)\<rparr>"
  let ?head = "yielded (approach arr fps i c) @ [?cmp]"
  have head_eq: "\<forall>fr\<in>set ?head. image fr \<noteq> None \<and> checked_indices (the (image fr)) = c"
    by (auto simp: yielded_approach draw_frame_def)
  then have head_sorted: "sorted_wrt ?G ?head"
    by (intro sorted_wrt_all_pairs) auto
  show ?case
  proof (cases "val = tg")
    case True
    let ?tail = "yielded (found_pulses arr tg i (insert i c))"
    have tail_eq: "\<forall>fr\<in>set ?tail. image fr \<noteq> None \<and> checked_indices (the (image fr)) = insert i c"
      by (auto simp: yielded_found_pulses draw_frame_def)
    then have tail_sorted: "sorted_wrt ?G ?tail"
      by (intro sorted_wrt_all_pairs) auto
    have eq: "yielded (search_loop arr tg fps i c (val # rest)) = ?head @ ?tail"
      using True by (simp add: yielded_append Let_def)
    have cross: "\<forall>x\<in>set ?head. \<forall>y\<in>set ?tail. ?G x y"
      using head_eq tail_eq by auto
    have s: "sorted_wrt ?G (?head @ ?tail)"
      using head_sorted tail_sorted cross sorted_wrt_append [of ?G ?head ?tail] by blast
    have all: "\<forall>fr\<in>set (?head @ ?tail). image fr \<noteq> None \<and> c \<subseteq> checked_indices (the (image fr))"
      using head_eq tail_eq by auto
    show ?thesis
      unfolding eq using s all by blast
  next
    case False
    let ?adv = "\<lparr>status = ''No match, moving to index '' @ str (int i + 1),
              image = Some (draw_frame arr (int i) (- 1) (insert i c) (fl (2 / 10))),
              step = format_steps 4,
              progress = progress_html (i + 1) (length arr)\<rparr>"
    let ?tail = "?adv # yielded (search_loop arr tg fps (i + 1) (insert i c) rest)"
    from Cons.IH [of "i + 1" "insert i c"]
    have rec_sorted: "sorted_wrt ?G (yielded (search_loop arr tg fps (i + 1) (insert i c) rest))"
      and rec_ge: "\<forall>fr\<in>set (yielded (search_loop arr tg fps (i + 1) (insert i c) rest)).
         image fr \<noteq> None \<and> insert i c \<subseteq> checked_indices (the (image fr))"
      by simp_all
    have tail_ge: "\<forall>fr\<in>set ?tail. image fr \<noteq> None \<and> insert i c \<subseteq> checked_indices (the (image fr))"
      using rec_ge by (auto simp: draw_frame_def)
    have tail_sorted: "sorted_wrt ?G ?tail"
      using rec_sorted rec_ge by (auto simp: draw_frame_def)
    have eq: "yielded (search_loop arr tg fps i c (val # rest)) = ?head @ ?tail"
      using False by (simp add: yielded_append Let_def)
    have cross: "\<forall>x\<in>set ?head. \<forall>y\<in>set ?tail. ?G x y"
      using head_eq tail_ge by auto
    have s: "sorted_wrt ?G (?head @ ?tail)"
      using head_sorted tail_sorted cross sorted_wrt_append [of ?G ?head ?tail] by blast
    have all: "\<forall>fr\<in>set (?head @ ?tail). image fr \<noteq> None \<and> c \<subseteq> checked_indices (the (image fr))"
      using head_eq tail_ge by auto
    show ?thesis
      unfolding eq using s all by blast
  qed
qed

lemma single_element_trace:
  "map (\<lambda>f. map_option (\<lambda>v. (current_index v, found_index v, checked_indices v)) (image f))
     (frames_of (linear_search_animated [5] (Some 5) 10)) =
   [Some (- 1, - 1, {}), Some (0, - 1, {}), Some (0, - 1, {}), Some (0, - 1, {}),
    Some (0, 0, {0}), Some (0, 0, {0}), Some (0, 0, {0}),
    Some (0, 0, {0}), Some (0, 0, {0}), Some (0, 0, {0})]"
proof -
  have present: "(5::int) \<in> set [5]" by simp
  have six: "[0..<6] = [0, 1, 2, 3, 4, 5]" by (simp add: upt_rec)
  have two: "[0..<2] = [0, Suc 0]" by (simp add: upt_rec)
  show ?thesis
    unfolding frames_of_present(1) [OF present frames_per_step_10]
    by (simp add: yielded_append yielded_found_pulses yielded_approach Let_def draw_frame_def
          six two del: upt_Suc)
qed

text \<open>
  C7. The checked set only grows along a run: of two frames that carry an image, the
  earlier one's checked set is a subset of the later one's. The first frame with an
  image is the Start frame, drawn with the empty set that line 254 creates anew in
  every run. This holds for every array, target and speed.
\<close>

theorem checked_set_grows:
  "(\<forall>p q. p < q \<and> q < length (frames_of (linear_search_animated arr target speed)) \<longrightarrow>
      (\<forall>va vb. image (frames_of (linear_search_animated arr target speed) ! p) = Some va
             \<and> image (frames_of (linear_search_animated arr target speed) ! q) = Some vb
          \<longrightarrow> checked_indices va \<subseteq> checked_indices vb))
   \<and> (\<forall>v. frames_of (linear_search_animated arr target speed) \<noteq> []
          \<and> image (hd (frames_of (linear_search_animated arr target speed))) = Some v
        \<longrightarrow> checked_indices v = {})"
proof -
  let ?G = "\<lambda>a b. checked_indices (the (image a)) \<subseteq> checked_indices (the (image b))"
  let ?fs = "frames_of (linear_search_animated arr target speed)"
  have "sorted_wrt ?G ?fs \<and> (\<forall>v. ?fs \<noteq> [] \<and> image (hd ?fs) = Some v \<longrightarrow> checked_indices v = {})"
  proof -
    consider "?fs = []"
      | f where "?fs = [f]" "image f = None"
      | tg fps where "?fs =
          \<lparr>status = ''Starting search'' @ ellipsis,
           image = Some (draw_frame arr (- 1) (- 1) {} 0),
           step = format_steps 1,
           progress = progress_html 0 (length arr)\<rparr> #
          yielded (search_loop arr tg fps 0 {} arr)"
      using frames_of_cases [of arr target speed] by blast
    then show ?thesis
    proof cases
      case 1
      then show ?thesis by simp
    next
      case 2
      then show ?thesis by simp
    next
      case 3
      from search_loop_checked_grows [of arr tg fps 0 "{}" arr]
      have "sorted_wrt ?G (yielded (search_loop arr tg fps 0 {} arr))" by blast
      then show ?thesis
        unfolding 3 by (simp add: draw_frame_def)
    qed
  qed
  then have nth: "\<forall>p q. p < q \<longrightarrow> q < length ?fs \<longrightarrow> ?G (?fs ! p) (?fs ! q)"
    and first: "\<forall>v. ?fs \<noteq> [] \<and> image (hd ?fs) = Some v \<longrightarrow> checked_indices v = {}"
    unfolding sorted_wrt_iff_nth_less by blast+
  from nth have "\<forall>p q. p < q \<and> q < length ?fs \<longrightarrow>
      (\<forall>va vb. image (?fs ! p) = Some va \<and> image (?fs ! q) = Some vb
          \<longrightarrow> checked_indices va \<subseteq> checked_indices vb)"
    by (metis option.sel)
  with first show ?thesis by blast
qed

theorem checked_set_grows_witness:
  "\<exists>va vb. image (frames_of (linear_search_animated [5] (Some 5) 10) ! 1) = Some va
         \<and> image (frames_of (linear_search_animated [5] (Some 5) 10) ! 9) = Some vb
         \<and> checked_indices va = {} \<and> checked_indices vb = {0}
         \<and> checked_indices va \<subseteq> checked_indices vb"
proof -
  let ?fs = "frames_of (linear_search_animated [5] (Some 5) 10)"
  let ?g = "\<lambda>f. map_option (\<lambda>v. (current_index v, found_index v, checked_indices v)) (image f)"
  have len: "length ?fs = 10"
    using arg_cong [OF single_element_trace, of length] by simp
  have "map ?g ?fs ! 1 = Some (0, - 1, {})" "map ?g ?fs ! 9 = Some (0, 0, {0})"
    unfolding single_element_trace by simp_all
  then have "?g (?fs ! 1) = Some (0, - 1, {})" "?g (?fs ! 9) = Some (0, 0, {0})"
    using len by simp_all
  then obtain va vb where va: "image (?fs ! 1) = Some va" "checked_indices va = {}"
    and vb: "image (?fs ! 9) = Some vb" "checked_indices vb = {0}"
    by auto
  have "(1::nat) < 9 \<and> 9 < length ?fs" using len by simp
  with checked_set_grows [of "[5]" "Some 5" 10] va(1) vb(1)
  have "checked_indices va \<subseteq> checked_indices vb" by blast
  with va vb show ?thesis by blast
qed

section \<open>Every run ends\<close>

lemma search_loop_length:
  "length (yielded (search_loop arr tg fps i c rest)) \<le> length rest * (nat fps + 2) + 5"
proof (induction rest arbitrary: i c)
  case Nil
  then show ?case by simp
next
  case (Cons val rest)
  show ?case
  proof (cases "val = tg")
    case True
    then show ?thesis
      by (simp add: yielded_append yielded_approach yielded_found_pulses Let_def)
  next
    case False
    then show ?thesis
      using Cons.IH [of "i + 1" "insert i c"]
      by (simp add: yielded_append yielded_approach Let_def)
  qed
qed

lemma search_loop_visit_order:
  "tg \<in> set rest \<Longrightarrow>
   sorted_wrt (\<lambda>a b. current_index (the (image a)) \<le> current_index (the (image b)))
     (yielded (search_loop arr tg fps i c rest))
   \<and> (\<forall>fr\<in>set (yielded (search_loop arr tg fps i c rest)).
         image fr \<noteq> None \<and> int i \<le> current_index (the (image fr)))"
proof (induction rest arbitrary: i c)
  case Nil
  then show ?case by simp
next
  case (Cons val rest)
  let ?G = "\<lambda>a b. current_index (the (image a)) \<le> current_index (the (image b))"
  let ?cmp = "\<lparr>status = ''Comparing '' @ str val @ '' with '' @ str tg @ ellipsis,
              image = Some (draw_frame arr (int i) (- 1) c (fl (8 / 10))),
              step = format_steps 2,
              progress = progress_html (i + 1) (length arr)\<rparr>"
  let ?head = "yielded (approach arr fps i c) @ [?cmp]"
  have head_eq: "\<forall>fr\<in>set ?head. image fr \<noteq> None \<and> current_index (the (image fr)) = int i"
    by (auto simp: yielded_approach draw_frame_def)
  then have head_sorted: "sorted_wrt ?G ?head"
    by (intro sorted_wrt_all_pairs) auto
  show ?case
  proof (cases "val = tg")
    case True
    let ?tail = "yielded (found_pulses arr tg i (insert i c))"
    have tail_eq: "\<forall>fr\<in>set ?tail. image fr \<noteq> None \<and> current_index (the (image fr)) = int i"
      by (auto simp: yielded_found_pulses draw_frame_def)
    then have tail_sorted: "sorted_wrt ?G ?tail"
      by (intro sorted_wrt_all_pairs) auto
    have eq: "yielded (search_loop arr tg fps i c (val # rest)) = ?head @ ?tail"
      using True by (simp add: yielded_append Let_def)
    have cross: "\<forall>x\<in>set ?head. \<forall>y\<in>set ?tail. ?G x y"
      using head_eq tail_eq by auto
    have s: "sorted_wrt ?G (?head @ ?tail)"
      using head_sorted tail_sorted cross sorted_wrt_append [of ?G ?head ?tail] by blast
    have all: "\<forall>fr\<in>set (?head @ ?tail). image fr \<noteq> None \<and> int i \<le> current_index (the (image fr))"
      using head_eq tail_eq by auto
    show ?thesis
      unfolding eq using s all by blast
  next
    case False
    with Cons.prems have mem: "tg \<in> set rest" by simp
    let ?adv = "\<lparr>status = ''No match, moving to index '' @ str (int i + 1),
              image = Some (draw_frame arr (int i) (- 1) (insert i c) (fl (2 / 10))),
              step = format_steps 4,
              progress = progress_html (i + 1) (length arr)\<rparr>"
    let ?tail = "?adv # yielded (search_loop arr tg fps (i + 1) (insert i c) rest)"
    from Cons.IH [OF mem, of "i + 1" "insert i c"]
    have rec_sorted: "sorted_wrt ?G (yielded (search_loop arr tg fps (i + 1) (insert i c) rest))"
      and rec_ge: "\<forall>fr\<in>set (yielded (search_loop arr tg fps (i + 1) (insert i c) rest)).
         image fr \<noteq> None \<and> int (i + 1) \<le> current_index (the (image fr))"
      by simp_all
    have tail_ge: "\<forall>fr\<in>set ?tail. image fr \<noteq> None \<and> int i \<le> current_index (the (image fr))"
      using rec_ge by (auto simp: draw_frame_def)
    have tail_sorted: "sorted_wrt ?G ?tail"
      using rec_sorted rec_ge by (auto simp: draw_frame_def)
    have eq: "yielded (search_loop arr tg fps i c (val # rest)) = ?head @ ?tail"
      using False by (simp add: yielded_append Let_def)
    have cross: "\<forall>x\<in>set ?head. \<forall>y\<in>set ?tail. ?G x y"
      using head_eq tail_ge by auto
    have s: "sorted_wrt ?G (?head @ ?tail)"
      using head_sorted tail_sorted cross sorted_wrt_append [of ?G ?head ?tail] by blast
    have all: "\<forall>fr\<in>set (?head @ ?tail). image fr \<noteq> None \<and> int i \<le> current_index (the (image fr))"
      using head_eq tail_ge by auto
    show ?thesis
      unfolding eq using s all by blast
  qed
qed

text \<open>
  C8. Every run is finite. The loop is a structural recursion over the elements still
  to visit, the approach loop runs \<^verbatim>\<open>frames_per_step\<close> times and the pulse loop six times,
  so the trace is a list. A run either returns, or raises \<^verbatim>\<open>OverflowError\<close> at line 258
  before its first frame. It yields at most \<open>length arr * (frames_per_step + 2) + 6\<close>
  frames: the Start frame, one pass with the approach, comparison and advance frames of
  each index, and the six pulses. The current index never decreases from one frame to
  a later one, so no index is visited again. This holds for every array (the empty one
  and a single element too), every target (missing or absent too) and every speed.
\<close>

theorem run_is_finite:
  "((\<exists>es. linear_search_animated arr target speed = Inr es)
      \<or> linear_search_animated arr target speed = Inl OverflowError)
   \<and> length (frames_of (linear_search_animated arr target speed))
        \<le> length arr * ((case frames_per_step speed of Inl e \<Rightarrow> 0 | Inr fps \<Rightarrow> nat fps) + 2) + 6
   \<and> (\<forall>p q. p < q \<and> q < length (frames_of (linear_search_animated arr target speed)) \<longrightarrow>
        (\<forall>va vb. image (frames_of (linear_search_animated arr target speed) ! p) = Some va
               \<and> image (frames_of (linear_search_animated arr target speed) ! q) = Some vb
           \<longrightarrow> current_index va \<le> current_index vb))"
proof -
  let ?R = "linear_search_animated arr target speed"
  let ?fs = "frames_of ?R"
  let ?G = "\<lambda>a b. current_index (the (image a)) \<le> current_index (the (image b))"
  have ends: "(\<exists>es. ?R = Inr es) \<or> ?R = Inl OverflowError"
  proof (cases ?R)
    case (Inl e)
    then show ?thesis by (cases e) simp
  next
    case (Inr es)
    then show ?thesis by simp
  qed
  have "length ?fs \<le> length arr * ((case frames_per_step speed of Inl e \<Rightarrow> 0 | Inr fps \<Rightarrow> nat fps) + 2) + 6
        \<and> sorted_wrt ?G ?fs"
  proof -
    consider "?fs = []"
      | f where "?fs = [f]" "image f = None"
      | tg fps where "tg \<in> set arr" "frames_per_step speed = Inr fps" "?fs =
          \<lparr>status = ''Starting search'' @ ellipsis,
           image = Some (draw_frame arr (- 1) (- 1) {} 0),
           step = format_steps 1,
           progress = progress_html 0 (length arr)\<rparr> #
          yielded (search_loop arr tg fps 0 {} arr)"
      using frames_of_cases [of arr target speed] by blast
    then show ?thesis
    proof cases
      case 1
      then show ?thesis by simp
    next
      case 2
      then show ?thesis by simp
    next
      case 3
      from search_loop_visit_order [OF 3(1), of arr fps 0 "{}"]
      have sorted: "sorted_wrt ?G (yielded (search_loop arr tg fps 0 {} arr))"
        and ge: "\<forall>fr\<in>set (yielded (search_loop arr tg fps 0 {} arr)).
                   0 \<le> current_index (the (image fr))"
        by simp_all
      have "length ?fs \<le> length arr * (nat fps + 2) + 6"
        unfolding 3(3) using search_loop_length [of arr tg fps 0 "{}" arr] by simp
      moreover have "sorted_wrt ?G ?fs"
        unfolding 3(3) using sorted ge by (auto simp: draw_frame_def)
      ultimately show ?thesis using 3(2) by simp
    qed
  qed
  then have len: "length ?fs \<le> length arr * ((case frames_per_step speed of Inl e \<Rightarrow> 0 | Inr fps \<Rightarrow> nat fps) + 2) + 6"
    and nth: "\<forall>p q. p < q \<longrightarrow> q < length ?fs \<longrightarrow> ?G (?fs ! p) (?fs ! q)"
    unfolding sorted_wrt_iff_nth_less by blast+
  from nth have "\<forall>p q. p < q \<and> q < length ?fs \<longrightarrow>
        (\<forall>va vb. image (?fs ! p) = Some va \<and> image (?fs ! q) = Some vb
           \<longrightarrow> current_index va \<le> current_index vb)"
    by (metis option.sel)
  with ends len show ?thesis by blast
qed

theorem run_is_finite_witness:
  "length (frames_of (linear_search_animated [5] (Some 5) 10)) = 10
   \<and> length (frames_of (linear_search_animated [5] (Some 5) 10)) \<le> length [5::int] * (nat 2 + 2) + 6
   \<and> length (frames_of (linear_search_animated [] (Some 5) 10)) \<le> 6
   \<and> length (frames_of (linear_search_animated [5] None 10)) \<le> length [5::int] * (nat 2 + 2) + 6"
proof -
  have len: "length (frames_of (linear_search_animated [5] (Some 5) 10)) = 10"
    using arg_cong [OF single_element_trace, of length] by simp
  show ?thesis
    using run_is_finite [of "[5]" "Some 5" 10] run_is_finite [of "[]" "Some 5" 10]
      run_is_finite [of "[5]" None 10] len
    by (simp add: frames_per_step_10)
qed

section \<open>Approach frames and the speed\<close>

lemma approach_count_head:
  "length (filter (approach_frame m) (yielded (approach arr fps i c))) = (if m = i then nat fps else 0)"
  by (simp add: yielded_approach approach_frame_def draw_frame_def filter_map comp_def)

lemma approach_count_pulses:
  "filter (approach_frame m) (yielded (found_pulses arr tg i c)) = []"
  by (simp add: yielded_found_pulses approach_frame_def filter_map comp_def)

lemma search_loop_approach_count:
  "tg \<in> set rest \<Longrightarrow>
   length (filter (approach_frame m) (yielded (search_loop arr tg fps i c rest))) =
     (if i \<le> m \<and> m \<le> i + length (takeWhile (\<lambda>v. v \<noteq> tg) rest) then nat fps else 0)"
proof (induction rest arbitrary: i c)
  case Nil
  then show ?case by simp
next
  case (Cons val rest)
  show ?case
  proof (cases "val = tg")
    case True
    then show ?thesis
      by (simp add: yielded_append approach_count_head approach_count_pulses Let_def)
         (simp add: approach_frame_def)
  next
    case False
    with Cons.prems have mem: "tg \<in> set rest" by simp
    have adv: "\<not> approach_frame m \<lparr>status = ''No match, moving to index '' @ str (int i + 1),
                       image = Some (draw_frame arr (int i) (- 1) (insert i c) (fl (2 / 10))),
                       step = format_steps 4,
                       progress = progress_html (i + 1) (length arr)\<rparr>"
      by (simp add: approach_frame_def)
    have cmp: "\<not> approach_frame m \<lparr>status = ''Comparing '' @ str val @ '' with '' @ str tg @ ellipsis,
              image = Some (draw_frame arr (int i) (- 1) c (fl (8 / 10))),
              step = format_steps 2,
              progress = progress_html (i + 1) (length arr)\<rparr>"
      by (simp add: approach_frame_def)
    show ?thesis
      using False Cons.IH [OF mem, of "i + 1" "insert i c"] adv cmp
      by (simp add: yielded_append approach_count_head Let_def)
  qed
qed

lemma frames_per_step_truncates:
  assumes "1 \<le> speed" "speed \<le> 10"
  shows "frames_per_step speed = Inr (max 1 (py_int (12 - (of_int speed - 1) * (11 / 10))))"
proof -
  from assms have "speed = 1 \<or> speed = 2 \<or> speed = 3 \<or> speed = 4 \<or> speed = 5
    \<or> speed = 6 \<or> speed = 7 \<or> speed = 8 \<or> speed = 9 \<or> speed = 10"
    by presburger
  then consider "speed = 1" | "speed = 2" | "speed = 3" | "speed = 4" | "speed = 5"
    | "speed = 6" | "speed = 7" | "speed = 8" | "speed = 9" | "speed = 10"
    by blast
  then show ?thesis
    by cases (simp_all add: frames_per_step_values frames_per_step_10 py_int_def floor_eq_iff)
qed

lemma approach_count_run:
  assumes "tg \<in> set arr" "frames_per_step speed = Inr fps"
    and "i \<le> length (takeWhile (\<lambda>v. v \<noteq> tg) arr)"
  shows "length (filter (approach_frame i) (frames_of (linear_search_animated arr (Some tg) speed)))
           = nat fps"
proof -
  have start: "\<not> approach_frame i \<lparr>status = ''Starting search'' @ ellipsis,
            image = Some (draw_frame arr (- 1) (- 1) {} 0),
            step = format_steps 1,
            progress = progress_html 0 (length arr)\<rparr>"
    by (simp add: approach_frame_def)
  show ?thesis
    unfolding frames_of_present(1) [OF assms(1,2)]
    using start search_loop_approach_count [OF assms(1), of i arr fps 0 "{}"] assms(3)
    by simp
qed

text \<open>
  C2, as the code has it. For every speed from 1 to 10, \<^verbatim>\<open>frames_per_step\<close> is
  \<open>max 1 (trunc (12 - (speed - 1) * 1.1))\<close>, where \<^verbatim>\<open>int\<close> truncates toward zero
  (\<open>py_int\<close>, here on the exact value): 12, 10, 9, 8, 7, 6, 5, 4, 3, 2. Every index the
  run visits, that is every index up to the first occurrence of the target, gets exactly
  that many approach frames. Rounding to the nearest integer, as the claim is written,
  gives 11 at speed 2, where the code yields 10 approach frames.
\<close>

theorem approach_frames_per_index:
  assumes "1 \<le> speed" and "speed \<le> 10" and "tg \<in> set arr"
    and "i \<le> length (takeWhile (\<lambda>v. v \<noteq> tg) arr)"
  shows "frames_per_step speed = Inr (max 1 (py_int (12 - (of_int speed - 1) * (11 / 10))))
       \<and> int (length (filter (approach_frame i)
                 (frames_of (linear_search_animated arr (Some tg) speed))))
           = max 1 (py_int (12 - (of_int speed - 1) * (11 / 10)))"
proof -
  note fps = frames_per_step_truncates [OF assms(1,2)]
  from approach_count_run [OF assms(3) fps assms(4)] fps
  show ?thesis by simp
qed

theorem approach_frames_per_index_witness:
  "(1::int) \<le> 2 \<and> (2::int) \<le> 10 \<and> (9::int) \<in> set [3, 7, 9, 2]
   \<and> 1 \<le> length (takeWhile (\<lambda>v. v \<noteq> 9) [3, 7, 9, 2 :: int])
   \<and> frames_per_step 2 = Inr 10
   \<and> length (filter (approach_frame 1) (frames_of (linear_search_animated [3, 7, 9, 2] (Some 9) 2)))
       = 10"
proof -
  have a: "(1::int) \<le> 2" "(2::int) \<le> 10" by simp_all
  have b: "(9::int) \<in> set [3, 7, 9, 2]" by simp
  have c: "1 \<le> length (takeWhile (\<lambda>v. v \<noteq> 9) [3, 7, 9, 2 :: int])" by simp
  have d: "max 1 (py_int (109 / 10)) = 10"
    by (simp add: py_int_def floor_eq_iff)
  from approach_frames_per_index [OF a b c]
  have "frames_per_step 2 = Inr (max 1 (py_int (109 / 10)))
      \<and> int (length (filter (approach_frame 1)
                (frames_of (linear_search_animated [3, 7, 9, 2] (Some 9) 2))))
          = max 1 (py_int (109 / 10))"
    by simp
  then show ?thesis
    unfolding d using b by simp
qed

theorem approach_frames_rounding_counterexample:
  "frames_per_step 2 = Inr 10
   \<and> length (filter (approach_frame 0) (frames_of (linear_search_animated [5] (Some 5) 2))) = 10
   \<and> max 1 (round (12 - (2 - 1) * (11 / 10) :: rat)) = (11::int)"
proof -
  have b: "(5::int) \<in> set [5]" by simp
  have c: "0 \<le> length (takeWhile (\<lambda>v. v \<noteq> 5) [5 :: int])" by simp
  have "round (12 - (2 - 1) * (11 / 10) :: rat) = 11"
    by (simp add: round_def floor_eq_iff)
  then show ?thesis
    using approach_count_run [OF b frames_per_step_values(2) c]
    by (simp add: frames_per_step_values)
qed

section \<open>The easing function\<close>

lemma ease_spec_range:
  assumes "0 \<le> t" "t \<le> 1"
  shows "0 \<le> ease_spec t" and "ease_spec t \<le> 1"
proof -
  have "0 \<le> 3 - 2 * t" using assms by simp
  then show "0 \<le> ease_spec t" by (simp add: ease_spec_def)
  have "1 - ease_spec t = (1 - t)\<^sup>2 * (1 + 2 * t)"
    by (simp add: ease_spec_def power2_eq_square algebra_simps)
  moreover have "0 \<le> (1 - t)\<^sup>2 * (1 + 2 * t)"
    using assms by (intro mult_nonneg_nonneg) simp_all
  ultimately show "ease_spec t \<le> 1" by simp
qed

lemma ease_spec_gap:
  assumes "0 \<le> s" "s \<le> t" "t \<le> 1"
  shows "(t - s)\<^sup>2 \<le> ease_spec t - ease_spec s"
proof -
  have eq: "ease_spec t - ease_spec s =
          (t - s) * ((t - s) + (2 * t * (1 - t) + 2 * s * (1 - t) + 2 * s * (1 - s)))"
    by (simp add: ease_spec_def power2_eq_square algebra_simps)
  have "0 \<le> 2 * t * (1 - t) + 2 * s * (1 - t) + 2 * s * (1 - s)"
    using assms by (intro add_nonneg_nonneg mult_nonneg_nonneg) simp_all
  then have "(t - s) * (t - s) \<le>
          (t - s) * ((t - s) + (2 * t * (1 - t) + 2 * s * (1 - t) + 2 * s * (1 - s)))"
    using assms by (intro mult_left_mono) simp_all
  then show ?thesis by (simp add: eq power2_eq_square)
qed

lemma ease_spec_mono:
  assumes "0 \<le> s" "s \<le> t" "t \<le> 1"
  shows "ease_spec s \<le> ease_spec t"
proof -
  have "0 \<le> (t - s)\<^sup>2" by simp
  also have "\<dots> \<le> ease_spec t - ease_spec s" by (rule ease_spec_gap [OF assms])
  finally show ?thesis by simp
qed

lemma ease_spec_values:
  "ease_spec 0 = 0" "ease_spec 1 = 1" "ease_spec (1 / 2) = 1 / 2"
  by (simp_all add: ease_spec_def power2_eq_square)

lemma fl_error:
  assumes "\<bar>x\<bar> < 2 ^ k"
  shows "\<bar>fl x - x\<bar> \<le> 2 powi (int k - 54)"
proof (cases "x = 0")
  case True
  then show ?thesis by (simp add: fl_def)
next
  case False
  define e where "e = max (ilog2 \<bar>x\<bar> - 52) (- 1074)"
  define p :: rat where "p = 2 powi e"
  have xpos: "0 < \<bar>x\<bar>" using False by simp
  have ppos: "0 < p" by (simp add: p_def)
  have "(2::rat) powi ilog2 \<bar>x\<bar> < 2 powi int k"
    using ilog2_bounds(1) [OF xpos] assms by simp
  then have "ilog2 \<bar>x\<bar> < int k"
    using power_int_increasing [of "int k" "ilog2 \<bar>x\<bar>" "2::rat"]
    by (cases "ilog2 \<bar>x\<bar> < int k") auto
  then have e: "e \<le> int k - 53" by (simp add: e_def)
  have fx: "fl x = of_int (round_half_even (x / p)) * p"
    using False by (simp add: fl_def Let_def e_def p_def)
  have "fl x - x = (of_int (round_half_even (x / p)) - x / p) * p"
    using ppos by (simp add: fx algebra_simps)
  then have "\<bar>fl x - x\<bar> = \<bar>of_int (round_half_even (x / p)) - x / p\<bar> * p"
    using ppos by (simp add: abs_mult)
  also have "\<dots> \<le> 1 / 2 * p"
    using round_half_even_error [of "x / p"] ppos by (intro mult_right_mono) simp_all
  also have "\<dots> = 2 powi (e - 1)"
    by (simp add: p_def power_int_diff)
  also have "\<dots> \<le> 2 powi (int k - 54)"
    using e by (intro power_int_increasing) simp_all
  finally show ?thesis .
qed

lemma ease_close:
  assumes "0 \<le> t" "t \<le> 1"
  shows "\<bar>ease t - ease_spec t\<bar> \<le> 1 / 2 ^ 49"
proof -
  define u :: rat where "u = 1 / 2 ^ 53"
  define a where "a = fl (t * t)"
  define b where "b = fl (2 * t)"
  define c where "c = fl (3 - b)"
  have u1: "(2::rat) powi (int 1 - 54) = u" and u2: "(2::rat) powi (int 2 - 54) = 2 * u"
    by (simp_all add: u_def)
  have tt: "0 \<le> t * t" "t * t \<le> 1"
    using assms by (simp_all add: mult_le_one)
  have a_err: "\<bar>a - t * t\<bar> \<le> u"
    unfolding a_def using fl_error [of "t * t" 1] tt by (simp only: u1) simp
  have a_rng: "0 \<le> a" "a \<le> 1"
    unfolding a_def using fl_nonneg [OF tt(1)] fl_mono [OF tt(2)] by (simp_all add: fl_one)
  have b_err: "\<bar>b - 2 * t\<bar> \<le> 2 * u"
    unfolding b_def using fl_error [of "2 * t" 2] assms by (simp only: u2) simp
  have b_rng: "0 \<le> b" "b \<le> 2"
    unfolding b_def using fl_nonneg [of "2 * t"] fl_mono [of "2 * t" 2] assms
    by (simp_all add: fl_numeral)
  have c_err: "\<bar>c - (3 - b)\<bar> \<le> 2 * u"
    unfolding c_def using fl_error [of "3 - b" 2] b_rng by (simp only: u2) simp
  have c_rng: "1 \<le> c" "c \<le> 3"
    unfolding c_def using fl_mono [of 1 "3 - b"] fl_mono [of "3 - b" 3] b_rng
    by (simp_all add: fl_numeral fl_one)
  have ac: "0 \<le> a * c" "a * c \<le> 3"
    using a_rng c_rng mult_mono [of a 1 c 3] by simp_all
  have r_err: "\<bar>fl (a * c) - a * c\<bar> \<le> 2 * u"
    using fl_error [of "a * c" 2] ac by (simp only: u2) simp
  have c_tot: "\<bar>c - (3 - 2 * t)\<bar> \<le> 4 * u"
    using c_err b_err by linarith
  have split: "a * c - t * t * (3 - 2 * t) = (a - t * t) * c + t * t * (c - (3 - 2 * t))"
    by (simp add: algebra_simps)
  have p1: "\<bar>(a - t * t) * c\<bar> \<le> u * 3"
    unfolding abs_mult using a_err c_rng by (intro mult_mono) simp_all
  have p2: "\<bar>t * t * (c - (3 - 2 * t))\<bar> \<le> 1 * (4 * u)"
    unfolding abs_mult using tt c_tot by (intro mult_mono) simp_all
  have "\<bar>a * c - t * t * (3 - 2 * t)\<bar> \<le> 7 * u"
    unfolding split using p1 p2 by linarith
  then have "\<bar>fl (a * c) - t * t * (3 - 2 * t)\<bar> \<le> 9 * u"
    using r_err by linarith
  moreover have "9 * u \<le> 1 / 2 ^ 49" by (simp add: u_def)
  ultimately show ?thesis
    by (simp add: ease_def ease_spec_def power2_eq_square a_def b_def c_def)
qed

lemma ease_values: "ease 0 = 0" "ease 1 = 1" "ease (1 / 2) = 1 / 2"
proof -
  show "ease 0 = 0" by (simp add: ease_def fl_zero)
  show "ease 1 = 1" by (simp add: ease_def fl_one fl_numeral)
  have q: "fl (1 / 4) = 1 / 4" using fl_exact [of 1 "- 2"] by simp
  have h: "fl (1 / 2) = 1 / 2" using fl_exact [of 1 "- 1"] by simp
  show "ease (1 / 2) = 1 / 2" by (simp add: ease_def fl_one fl_numeral q h)
qed

lemma sample_point:
  assumes "1 \<le> fps" "int f < fps"
  shows "0 \<le> fl (of_nat (f + 1) / of_int fps)" "fl (of_nat (f + 1) / of_int fps) \<le> 1"
    "\<bar>fl (of_nat (f + 1) / of_int fps) - of_nat (f + 1) / of_int fps\<bar> \<le> 1 / 2 ^ 53"
proof -
  let ?x = "of_nat (f + 1) / of_int fps :: rat"
  have p: "(0::rat) < of_int fps" using assms(1) by simp
  have "int (f + 1) \<le> fps" using assms(2) by simp
  then have "(of_int (int (f + 1)) :: rat) \<le> of_int fps" by (simp only: of_int_le_iff)
  then have le: "(of_nat (f + 1) :: rat) \<le> of_int fps" by simp
  have x: "0 \<le> ?x" "?x \<le> 1"
    using p le by (simp_all add: divide_le_eq_1)
  show "0 \<le> fl ?x" using x(1) by (rule fl_nonneg)
  show "fl ?x \<le> 1" using fl_mono [OF x(2)] by (simp add: fl_one)
  have "\<bar>?x\<bar> < 2 ^ 1" using x by simp
  from fl_error [OF this] show "\<bar>fl ?x - ?x\<bar> \<le> 1 / 2 ^ 53" by simp
qed

lemma ease_nonneg:
  assumes "0 \<le> t" "t \<le> 1"
  shows "0 \<le> ease t"
proof -
  have a: "0 \<le> fl (t * t)" using assms by (intro fl_nonneg) simp
  have "fl (2 * t) \<le> fl 2" using assms by (intro fl_mono) simp
  then have "1 \<le> 3 - fl (2 * t)" by (simp add: fl_numeral)
  then have "fl 1 \<le> fl (3 - fl (2 * t))" by (rule fl_mono)
  then have c: "0 \<le> fl (3 - fl (2 * t))" by (simp add: fl_one)
  have "0 \<le> fl (t * t) * fl (3 - fl (2 * t))"
    using a c by (rule mult_nonneg_nonneg)
  then show ?thesis
    unfolding ease_def by (rule fl_nonneg)
qed

lemma ease_samples:
  assumes "1 \<le> fps" "fps \<le> 1024" "f \<le> g" "int g < fps"
  shows "0 \<le> ease (fl (of_nat (f + 1) / of_int fps))"
    and "ease (fl (of_nat (f + 1) / of_int fps)) \<le> ease (fl (of_nat (g + 1) / of_int fps))"
    and "ease (fl (of_nat (g + 1) / of_int fps)) \<le> 1"
proof -
  let ?x = "\<lambda>k. of_nat (k + 1) / of_int fps :: rat"
  let ?t = "\<lambda>k. fl (?x k)"
  have p: "(0::rat) < of_int fps" using assms(1) by simp
  have fps_le: "(of_int fps :: rat) \<le> 1024"
    using assms(2) of_int_le_iff [of fps 1024, where ?'a = rat] by simp
  have step: "1 / 1024 \<le> 1 / (of_int fps :: rat)"
    using p fps_le by (simp add: field_simps)
  have f_lt: "int f < fps" using assms(3,4) by simp
  have small: "(1::rat) / 2 ^ 53 \<le> 1 / 4096" by simp
  have tiny: "2 * ((1::rat) / 2 ^ 49) \<le> 1 / 2048\<^sup>2" by simp
  note sf = sample_point [OF assms(1) f_lt]
  note sg = sample_point [OF assms(1) assms(4)]
  show "0 \<le> ease (?t f)"
    using sf(1,2) by (rule ease_nonneg)
  show "ease (?t f) \<le> ease (?t g)"
  proof (cases "f = g")
    case True
    then show ?thesis by simp
  next
    case False
    with assms(3) have "f + 1 + 1 \<le> g + 1" by simp
    then have "(of_nat (f + 1 + 1) :: rat) \<le> of_nat (g + 1)"
      by (simp only: of_nat_le_iff)
    then have "(of_nat (f + 1) :: rat) + 1 \<le> of_nat (g + 1)"
      by simp
    then have "(of_nat (f + 1) + 1) / of_int fps \<le> ?x g"
      using p by (intro divide_right_mono) simp_all
    then have "?x f + 1 / of_int fps \<le> ?x g"
      by (simp only: add_divide_distrib)
    then have far: "1 / 2048 \<le> ?t g - ?t f"
      using sf(3) sg(3) step small by linarith
    have "(1 / 2048)\<^sup>2 \<le> (?t g - ?t f)\<^sup>2"
      using far by (intro power_mono) simp_all
    also have "\<dots> \<le> ease_spec (?t g) - ease_spec (?t f)"
      using far sf(1) sg(2) by (intro ease_spec_gap) simp_all
    finally have gap: "1 / 2048\<^sup>2 \<le> ease_spec (?t g) - ease_spec (?t f)"
      by (simp add: power_divide)
    have "\<bar>ease (?t f) - ease_spec (?t f)\<bar> \<le> 1 / 2 ^ 49"
      "\<bar>ease (?t g) - ease_spec (?t g)\<bar> \<le> 1 / 2 ^ 49"
      using sf(1,2) sg(1,2) by (simp_all only: ease_close)
    then show ?thesis using gap tiny by linarith
  qed
  show "ease (?t g) \<le> 1"
  proof (cases "int g + 1 = fps")
    case True
    then have "fps = int (g + 1)" by simp
    then have "(of_int fps :: rat) = of_nat (g + 1)"
      by (simp only: of_int_of_nat_eq)
    then have "?t g = 1" using p by (simp add: fl_one)
    then show ?thesis by (simp add: ease_values)
  next
    case False
    with assms(4) have "int (g + 1) + 1 \<le> fps" by simp
    then have "(of_int (int (g + 1) + 1) :: rat) \<le> of_int fps" by (simp only: of_int_le_iff)
    then have "(of_nat (g + 1) :: rat) + 1 \<le> of_int fps" by simp
    then have "(of_nat (g + 1) + 1) / of_int fps \<le> of_int fps / (of_int fps :: rat)"
      using p by (intro divide_right_mono) simp_all
    then have "?x g + 1 / of_int fps \<le> 1"
      using p by (simp only: add_divide_distrib) simp
    then have far: "1 / 2048 \<le> 1 - ?t g"
      using sg(3) step small by linarith
    have "(1 / 2048)\<^sup>2 \<le> (1 - ?t g)\<^sup>2"
      using far by (intro power_mono) simp_all
    also have "\<dots> \<le> ease_spec 1 - ease_spec (?t g)"
      using far sg(1) by (intro ease_spec_gap) simp_all
    finally have gap: "ease_spec (?t g) \<le> 1 - 1 / 2048\<^sup>2"
      by (simp add: power_divide ease_spec_values)
    have "\<bar>ease (?t g) - ease_spec (?t g)\<bar> \<le> 1 / 2 ^ 49"
      using sg(1,2) by (simp only: ease_close)
    then show ?thesis using gap tiny by linarith
  qed
qed

lemma easing_bound_small:
  fixes N k m :: int
  assumes N: "0 < N" and k: "0 \<le> k" and small: "(2 * k - 1)\<^sup>2 < 2 * N"
    and m: "4 * m * N \<le> (2 * N - 2 * k + 1)\<^sup>2 + 2 * N"
  shows "m * (N + 2 * k) \<le> N\<^sup>2 + N"
proof -
  have e: "(2 * N - 2 * k + 1)\<^sup>2 + 2 * N = 4 * N * (N - 2 * k + 1) + 2 * N + (2 * k - 1)\<^sup>2"
    by (simp add: power2_eq_square algebra_simps)
  have "4 * m * N < 4 * N * (N - 2 * k + 1) + 4 * N"
    using m small unfolding e by linarith
  also have "\<dots> = 4 * (N - 2 * k + 2) * N" by (simp add: algebra_simps)
  finally have "4 * m * N < 4 * (N - 2 * k + 2) * N" .
  then have "4 * m < 4 * (N - 2 * k + 2)"
    using N by (simp only: mult_less_cancel_right_pos)
  then have "m < N - 2 * k + 2" by simp
  then have le: "m \<le> N - 2 * k + 1" by linarith
  have "0 \<le> N + 2 * k" using N k by linarith
  then have "m * (N + 2 * k) \<le> (N - 2 * k + 1) * (N + 2 * k)"
    using le by (rule mult_right_mono [rotated])
  also have "\<dots> = N\<^sup>2 + N - 2 * k * (2 * k - 1)"
    by (simp add: power2_eq_square algebra_simps)
  also have "\<dots> \<le> N\<^sup>2 + N"
  proof -
    have "0 \<le> 2 * k * (2 * k - 1)"
    proof (cases "k = 0")
      case True then show ?thesis by simp
    next
      case False
      with k have "0 \<le> 2 * k" "0 \<le> 2 * k - 1" by linarith+
      then show ?thesis by (rule mult_nonneg_nonneg)
    qed
    then show ?thesis by linarith
  qed
  finally show ?thesis .
qed

lemma easing_bound_large:
  fixes N k m :: int
  assumes N: "0 < N" and k: "3 \<le> k" and kN: "2 * k \<le> N" and large: "N \<le> 2 * k\<^sup>2"
    and m: "4 * m * N \<le> (2 * N - 2 * k + 1)\<^sup>2 + 2 * N"
  shows "m * (N + 2 * k) \<le> N\<^sup>2 + N"
proof -
  have pos: "0 \<le> N + 2 * k" using N k by linarith
  have a: "8 * k * k * k \<le> 4 * N * k * k"
  proof -
    have "(2 * k) * (4 * k * k) \<le> N * (4 * k * k)"
      using kN by (rule mult_right_mono) simp
    then show ?thesis by (simp add: algebra_simps)
  qed
  have b: "2 * N * N \<le> 4 * N * k * k"
  proof -
    have "N * (2 * N) \<le> (2 * k\<^sup>2) * (2 * N)"
      using large by (rule mult_right_mono) (use N in simp)
    then show ?thesis by (simp add: power2_eq_square algebra_simps)
  qed
  have c: "8 * N * k + N \<le> 4 * N * k * k"
  proof -
    have "N * 3 \<le> N * k" using k N by (simp add: mult_left_mono)
    then have nk: "3 * N \<le> N * k" by (simp add: algebra_simps)
    have "(N * k) * 3 \<le> (N * k) * k"
      using k N by (intro mult_left_mono) simp_all
    then have "3 * (N * k) \<le> N * k * k" by (simp add: algebra_simps)
    then have "12 * (N * k) \<le> 4 * N * k * k" by (simp add: algebra_simps)
    moreover have "8 * N * k + N \<le> 12 * (N * k)" using nk N by (simp add: algebra_simps)
    ultimately show ?thesis by linarith
  qed
  have d: "2 * k \<le> 8 * k * k"
  proof -
    have "k * 1 \<le> k * k" using k by (intro mult_left_mono) simp_all
    moreover have "0 \<le> k * k" by simp
    ultimately show ?thesis by linarith
  qed
  have "4 * N * (m * (N + 2 * k)) = (4 * m * N) * (N + 2 * k)" by (simp add: algebra_simps)
  also have "\<dots> \<le> ((2 * N - 2 * k + 1)\<^sup>2 + 2 * N) * (N + 2 * k)"
    using m pos by (rule mult_right_mono)
  also have "\<dots> = 4 * N * N * N + 6 * N * N - 12 * N * k * k + 8 * N * k + N
      + 8 * k * k * k - 8 * k * k + 2 * k"
    by (simp add: power2_eq_square algebra_simps)
  also have "\<dots> \<le> 4 * N * N * N + 4 * N * N"
    using a b c d by linarith
  also have "\<dots> = 4 * N * (N\<^sup>2 + N)" by (simp add: power2_eq_square algebra_simps)
  finally have "4 * N * (m * (N + 2 * k)) \<le> 4 * N * (N\<^sup>2 + N)" .
  then show ?thesis using N by simp
qed

lemma fl_grid:
  assumes "2 powi e \<le> x" "x < 2 powi (e + 1)" "- 1022 \<le> e"
  shows "fl x = of_int (round_half_even (x / 2 powi (e - 52))) * 2 powi (e - 52)"
proof -
  have "(0::rat) < 2 powi e" by simp
  with assms(1) have pos: "0 < x" by linarith
  have il: "ilog2 x = e" by (rule ilog2_unique [OF assms(1,2)])
  have mx: "max (e - 52) (- 1074) = e - 52" using assms(3) by simp
  have ab: "\<bar>x\<bar> = x" using pos by simp
  show ?thesis
    unfolding fl_def Let_def ab il mx using pos by simp
qed

lemma fl_above_one: "fl (1 + 1 / 2 ^ 53) = 1"
  by code_simp

lemma ease_le_one_near_one:
  assumes t0: "0 \<le> t" and t1: "t < 1" and sq: "1 / 2 \<le> t * t"
  shows "ease t \<le> 1"
proof -
  define N :: int where "N = 2 ^ 53"
  define R :: rat where "R = 2 ^ 53"
  have NR: "of_int N = R" by (simp add: N_def R_def)
  have Rpos: "0 < R" by (simp add: R_def)
  have Npos: "0 < N" by (simp add: N_def)
  have t58: "5 / 8 \<le> t"
  proof (rule ccontr)
    assume "\<not> 5 / 8 \<le> t"
    then have lt: "t \<le> 5 / 8" by simp
    have "t * t \<le> 5 / 8 * (5 / 8)"
      using lt lt t0 by (intro mult_mono) simp_all
    with sq show False by simp
  qed
  have tt1: "t * t < 1"
  proof -
    have "t * t \<le> t * 1" using t0 t1 by (intro mult_left_mono) simp_all
    with t1 show ?thesis by simp
  qed
  define n where "n = round_half_even (t * R)"
  have b: "fl (2 * t) = of_int n * 2 powi (- 52)"
  proof -
    have g: "fl (2 * t) =
        of_int (round_half_even (2 * t / 2 powi (0 - 52))) * 2 powi (0 - 52)"
      by (rule fl_grid) (use t58 t1 in simp_all)
    have eq: "2 * t / 2 powi (0 - 52) = t * R"
      by (simp add: R_def power_int_minus field_simps)
    have z: "(0::int) - 52 = - 52" by simp
    have "fl (2 * t) = of_int (round_half_even (t * R)) * 2 powi (0 - 52)"
      by (simp only: g eq)
    then show ?thesis by (simp only: n_def z)
  qed
  have nerr: "\<bar>of_int n - t * R\<bar> \<le> 1 / 2"
    unfolding n_def by (rule round_half_even_error)
  have tR: "t * R < R" using t1 Rpos by simp
  have n_hi: "n \<le> N"
  proof -
    have "of_int n < R + 1" using nerr tR by linarith
    then have "(of_int n :: rat) < of_int (N + 1)" using NR by simp
    then have "n < N + 1" by (simp only: of_int_less_iff)
    then show ?thesis by simp
  qed
  have n_lo: "5 * 2 ^ 50 \<le> n"
  proof -
    have "5 / 8 * R \<le> t * R" using t58 Rpos by (intro mult_right_mono) simp_all
    moreover have "5 / 8 * R = of_int (5 * 2 ^ 50)" by (simp add: R_def)
    ultimately have "(of_int (5 * 2 ^ 50) :: rat) - 1 < of_int n" using nerr by linarith
    then have "(of_int (5 * 2 ^ 50 - 1) :: rat) < of_int n" by simp
    then have "5 * 2 ^ 50 - 1 < n" by (simp only: of_int_less_iff)
    then show ?thesis by simp
  qed
  define k where "k = N - n"
  have k0: "0 \<le> k" using n_hi by (simp add: k_def)
  have k_hi: "k \<le> 3 * 2 ^ 50" using n_lo by (simp add: k_def N_def)
  have c: "fl (3 - fl (2 * t)) = of_int (N + 2 * k) / R"
  proof -
    have e1: "3 - fl (2 * t) = of_int (2 ^ 52 + k) * 2 powi (- 52)"
      unfolding b by (simp add: k_def N_def power_int_minus field_simps)
    have e2: "fl (of_int (2 ^ 52 + k) * 2 powi (- 52)) = of_int (2 ^ 52 + k) * 2 powi (- 52)"
      using k0 k_hi by (intro fl_exact) simp_all
    have e3: "of_int (2 ^ 52 + k) * 2 powi (- 52) = (of_int (N + 2 * k) :: rat) / R"
      by (simp add: N_def R_def power_int_minus field_simps)
    have "fl (3 - fl (2 * t)) = of_int (2 ^ 52 + k) * 2 powi (- 52)"
      by (simp only: e1 e2)
    then show ?thesis by (simp only: e3)
  qed
  define m where "m = round_half_even (t * t * R)"
  have a: "fl (t * t) = of_int m / R"
  proof -
    have g: "fl (t * t) =
        of_int (round_half_even (t * t / 2 powi (- 1 - 52))) * 2 powi (- 1 - 52)"
      by (rule fl_grid) (use sq tt1 in simp_all)
    have eq: "t * t / 2 powi (- 1 - 52) = t * t * R"
      by (simp add: R_def power_int_minus field_simps)
    have conv: "of_int m * 2 powi (- 1 - 52) = (of_int m :: rat) / R"
      by (simp add: R_def power_int_minus field_simps)
    show ?thesis by (simp only: g eq m_def [symmetric] conv)
  qed
  have merr: "\<bar>of_int m - t * t * R\<bar> \<le> 1 / 2"
    unfolding m_def by (rule round_half_even_error)
  have star: "4 * m * N \<le> (2 * N - 2 * k + 1)\<^sup>2 + 2 * N"
  proof -
    let ?T = "t * R"
    let ?U = "R - of_int k + 1 / 2"
    have "of_int n = R - of_int k" using NR by (simp add: k_def)
    then have T: "?T \<le> ?U" using nerr by linarith
    have T0: "0 \<le> ?T" using t0 Rpos by simp
    have TT: "?T * ?T \<le> ?U * ?U"
      using T T T0 by (intro mult_mono) simp_all
    have "of_int m * R \<le> (t * t * R + 1 / 2) * R"
      using merr Rpos by (intro mult_right_mono) linarith+
    also have "\<dots> = ?T * ?T + R / 2" by (simp add: algebra_simps)
    also have "\<dots> \<le> ?U * ?U + R / 2" using TT by simp
    finally have "4 * (of_int m * R) \<le> 4 * (?U * ?U + R / 2)" by simp
    also have "\<dots> = (2 * R - 2 * of_int k + 1)\<^sup>2 + 2 * R"
      by (simp add: power2_eq_square algebra_simps)
    finally have "(of_int (4 * m * N) :: rat) \<le> of_int ((2 * N - 2 * k + 1)\<^sup>2 + 2 * N)"
      using NR by (simp add: algebra_simps)
    then show ?thesis by (simp only: of_int_le_iff)
  qed
  have bound: "m * (N + 2 * k) \<le> N\<^sup>2 + N"
  proof (cases "k \<le> 2 ^ 26")
    case True
    have "\<bar>2 * k - 1\<bar> \<le> \<bar>2 ^ 27 - 1 :: int\<bar>" using True k0 by simp
    then have "(2 * k - 1)\<^sup>2 \<le> (2 ^ 27 - 1)\<^sup>2" by (simp only: abs_le_square_iff)
    also have "\<dots> < 2 * N" by (simp add: N_def)
    finally show ?thesis
      using easing_bound_small [OF Npos k0 _ star] by simp
  next
    case False
    then have big: "2 ^ 26 \<le> k" by simp
    then have k3: "3 \<le> k" by simp
    have kN: "2 * k \<le> N" using k_hi by (simp add: N_def)
    have "(2 ^ 26)\<^sup>2 \<le> k\<^sup>2" using big by (intro power_mono) simp_all
    then have large: "N \<le> 2 * k\<^sup>2" by (simp add: N_def)
    show ?thesis by (rule easing_bound_large [OF Npos k3 kN large star])
  qed
  have "(of_int (m * (N + 2 * k)) :: rat) \<le> of_int (N\<^sup>2 + N)"
    using bound by (simp only: of_int_le_iff)
  then have "of_int m * of_int (N + 2 * k) \<le> R * R + R"
    using NR by (simp add: power2_eq_square)
  then have "of_int m * of_int (N + 2 * k) / (R * R) \<le> (R * R + R) / (R * R)"
    using Rpos by (intro divide_right_mono) simp_all
  also have "(R * R + R) / (R * R) = 1 + 1 / 2 ^ 53"
    using Rpos by (simp add: R_def field_simps)
  finally have prod: "fl (t * t) * fl (3 - fl (2 * t)) \<le> 1 + 1 / 2 ^ 53"
    unfolding a c by simp
  have "ease t \<le> fl (1 + 1 / 2 ^ 53)"
    unfolding ease_def using prod by (rule fl_mono)
  then show ?thesis by (simp only: fl_above_one)
qed

lemma ease_le_one:
  assumes "0 \<le> t" "t \<le> 1"
  shows "ease t \<le> 1"
proof -
  let ?a = "fl (t * t)"
  let ?b = "fl (2 * t)"
  let ?c = "fl (3 - ?b)"
  have quarter: "fl (1 / 4) = 1 / 4" and half: "fl (1 / 2) = 1 / 2"
    using fl_exact [of 1 "- 2"] fl_exact [of 1 "- 1"] by (simp_all add: power_int_minus)
  have two: "fl 2 = 2" and three: "fl 3 = 3" by (simp_all add: fl_numeral)
  have a0: "0 \<le> ?a" using assms(1) by (intro fl_nonneg) simp
  have small: "ease t \<le> 1" if a: "?a \<le> A" and c: "?c \<le> C" and c0: "0 \<le> ?c"
    and AC: "A * C \<le> 1" for A C
  proof -
    have "0 \<le> A" using a0 a by linarith
    then have "?a * ?c \<le> A * C" using a c c0 by (intro mult_mono) simp_all
    with AC have "?a * ?c \<le> 1" by linarith
    then have "fl (?a * ?c) \<le> fl 1" by (rule fl_mono)
    then show ?thesis by (simp add: ease_def fl_one)
  qed
  consider "t = 1" | "t < 1" "1 / 2 \<le> t * t" | "t \<le> 1 / 2" | "1 / 2 \<le> t" "t * t \<le> 1 / 2"
    using assms(2) by linarith
  then show ?thesis
  proof cases
    case 1
    then show ?thesis by (simp add: ease_values)
  next
    case 2
    then show ?thesis using assms(1) by (intro ease_le_one_near_one)
  next
    case 3
    have "t * t \<le> 1 / 2 * (1 / 2)" using 3 assms(1) by (intro mult_mono) simp_all
    then have "?a \<le> fl (1 / 4)" by (intro fl_mono) simp
    then have a: "?a \<le> 1 / 4" by (simp only: quarter)
    have b0: "0 \<le> ?b" using assms(1) by (intro fl_nonneg) simp
    have "?b \<le> fl 1" using 3 by (intro fl_mono) simp
    then have b1: "?b \<le> 1" by (simp only: fl_one)
    have "?c \<le> fl 3" using b0 by (intro fl_mono) simp
    then have c: "?c \<le> 3" by (simp only: three)
    have c0: "0 \<le> ?c" using b1 by (intro fl_nonneg) simp
    show ?thesis by (rule small [OF a c c0]) simp
  next
    case 4
    have "?a \<le> fl (1 / 2)" using 4(2) by (rule fl_mono)
    then have a: "?a \<le> 1 / 2" by (simp only: half)
    have "fl 1 \<le> ?b" using 4(1) by (intro fl_mono) simp
    then have b1: "1 \<le> ?b" by (simp only: fl_one)
    have "?b \<le> fl 2" using assms(2) by (intro fl_mono) simp
    then have b2: "?b \<le> 2" by (simp only: two)
    have "?c \<le> fl 2" using b1 by (intro fl_mono) simp
    then have c: "?c \<le> 2" by (simp only: two)
    have c0: "0 \<le> ?c" using b2 by (intro fl_nonneg) simp
    show ?thesis by (rule small [OF a c c0]) simp
  qed
qed

lemma ease_nearly_mono:
  assumes "0 \<le> s" "s \<le> t" "t \<le> 1"
  shows "ease s \<le> ease t + 1 / 2 ^ 48"
proof -
  have s1: "s \<le> 1" and t0: "0 \<le> t" using assms by linarith+
  have "\<bar>ease s - ease_spec s\<bar> \<le> 1 / 2 ^ 49" using assms(1) s1 by (rule ease_close)
  moreover have "\<bar>ease t - ease_spec t\<bar> \<le> 1 / 2 ^ 49" using t0 assms(3) by (rule ease_close)
  moreover have "ease_spec s \<le> ease_spec t" using assms by (rule ease_spec_mono)
  moreover have "(1::rat) / 2 ^ 49 + 1 / 2 ^ 49 = 1 / 2 ^ 48" by simp
  ultimately show ?thesis by linarith
qed

lemma approach_filter_head:
  "filter (approach_frame m) (yielded (approach arr fps i c)) =
     (if m = i then yielded (approach arr fps i c) else [])"
  by (auto simp: yielded_approach approach_frame_def draw_frame_def filter_map comp_def)

lemma search_loop_approach_frames:
  "tg \<in> set rest \<Longrightarrow>
   filter (approach_frame m) (yielded (search_loop arr tg fps i c rest)) =
     (if i \<le> m \<and> m \<le> i + length (takeWhile (\<lambda>v. v \<noteq> tg) rest)
      then yielded (approach arr fps m (c \<union> {i..<m})) else [])"
proof (induction rest arbitrary: i c)
  case Nil
  then show ?case by simp
next
  case (Cons val rest)
  have adv: "\<not> approach_frame m \<lparr>status = ''No match, moving to index '' @ str (int i + 1),
                       image = Some (draw_frame arr (int i) (- 1) (insert i c) (fl (2 / 10))),
                       step = format_steps 4,
                       progress = progress_html (i + 1) (length arr)\<rparr>"
    by (simp add: approach_frame_def)
  have cmp: "\<not> approach_frame m \<lparr>status = ''Comparing '' @ str val @ '' with '' @ str tg @ ellipsis,
              image = Some (draw_frame arr (int i) (- 1) c (fl (8 / 10))),
              step = format_steps 2,
              progress = progress_html (i + 1) (length arr)\<rparr>"
    by (simp add: approach_frame_def)
  show ?case
  proof (cases "val = tg")
    case True
    then show ?thesis
      using cmp by (auto simp: yielded_append approach_filter_head approach_count_pulses Let_def)
  next
    case False
    with Cons.prems have mem: "tg \<in> set rest" by simp
    have sets: "i + 1 \<le> m \<Longrightarrow> insert i c \<union> {i + 1..<m} = c \<union> {i..<m}"
      by auto
    show ?thesis
      using False Cons.IH [OF mem, of "i + 1" "insert i c"] adv cmp sets
      by (auto simp: yielded_append approach_filter_head Let_def)
  qed
qed

lemma approach_frames_of_run:
  assumes "tg \<in> set arr" "frames_per_step speed = Inr fps"
    and "i \<le> length (takeWhile (\<lambda>v. v \<noteq> tg) arr)"
  shows "filter (approach_frame i) (frames_of (linear_search_animated arr (Some tg) speed))
           = yielded (approach arr fps i {0..<i})"
proof -
  have start: "\<not> approach_frame i \<lparr>status = ''Starting search'' @ ellipsis,
            image = Some (draw_frame arr (- 1) (- 1) {} 0),
            step = format_steps 1,
            progress = progress_html 0 (length arr)\<rparr>"
    by (simp add: approach_frame_def)
  show ?thesis
    unfolding frames_of_present(1) [OF assms(1,2)]
    using start search_loop_approach_frames [OF assms(1), of i arr fps 0 "{}"] assms(3)
    by simp
qed

lemma approach_glow:
  "map (\<lambda>fr. map_option glow_strength (image fr)) (yielded (approach arr fps i c)) =
     map (\<lambda>f. Some (fl (1 / 2 * ease (fl (of_nat (f + 1) / of_int fps))))) [0..<nat fps]"
  by (simp add: yielded_approach draw_frame_def comp_def)

lemma frames_per_step_slider:
  assumes "1 \<le> speed" "speed \<le> 10"
  shows "\<exists>fps. frames_per_step speed = Inr fps \<and> 1 \<le> fps \<and> fps \<le> 12"
proof -
  from assms have "speed = 1 \<or> speed = 2 \<or> speed = 3 \<or> speed = 4 \<or> speed = 5
    \<or> speed = 6 \<or> speed = 7 \<or> speed = 8 \<or> speed = 9 \<or> speed = 10"
    by presburger
  then consider "speed = 1" | "speed = 2" | "speed = 3" | "speed = 4" | "speed = 5"
    | "speed = 6" | "speed = 7" | "speed = 8" | "speed = 9" | "speed = 10"
    by blast
  then show ?thesis
    by cases (simp_all add: frames_per_step_values)
qed

lemma approach_glow_run:
  assumes "1 \<le> speed" "speed \<le> 10" "tg \<in> set arr"
    and "i \<le> length (takeWhile (\<lambda>v. v \<noteq> tg) arr)"
  shows "\<exists>fps. frames_per_step speed = Inr fps \<and> 1 \<le> fps \<and> fps \<le> 12
     \<and> map (\<lambda>fr. map_option glow_strength (image fr))
          (filter (approach_frame i) (frames_of (linear_search_animated arr (Some tg) speed)))
       = map (\<lambda>f. Some (fl (1 / 2 * ease (fl (of_nat (f + 1) / of_int fps))))) [0..<nat fps]"
proof -
  from frames_per_step_slider [OF assms(1,2)]
  obtain fps where fps: "frames_per_step speed = Inr fps" "1 \<le> fps" "fps \<le> 12" by blast
  have "map (\<lambda>fr. map_option glow_strength (image fr))
          (filter (approach_frame i) (frames_of (linear_search_animated arr (Some tg) speed)))
       = map (\<lambda>f. Some (fl (1 / 2 * ease (fl (of_nat (f + 1) / of_int fps))))) [0..<nat fps]"
    unfolding approach_frames_of_run [OF assms(3) fps(1) assms(4)] by (rule approach_glow)
  with fps show ?thesis by blast
qed

text \<open>
  C6, as the code has it. The formula \<open>t\<^sup>2 (3 - 2 t)\<close> maps the real interval \<open>[0, 1]\<close> into
  \<open>[0, 1]\<close>, is monotonic on it, and takes the values 0, 1 and 1/2 at 0, 1 and 1/2. Line
  277 evaluates it in doubles. The computed value is exactly 0, 1 and 1/2 at 0, 1 and 1/2;
  on \<open>[0, 1]\<close> it stays in \<open>[0, 1]\<close>, differs from the formula by at most \<open>2\<^sup>-\<^sup>4\<^sup>9\<close>, and is
  monotonic up to rounding: from \<open>s\<close> to a larger \<open>t\<close> it falls by at most \<open>2\<^sup>-\<^sup>4\<^sup>8\<close>. At the
  arguments the approach loop passes, \<open>t = (f + 1) / frames_per_step\<close> for a frame count of
  at most 1024, the computed values do not decrease from one sub-frame to a later one. In
  a run at a speed from 1 to 10, the approach frames of every index visited carry, in
  order, the glow strengths \<open>0.5 * ease ((f + 1) / frames_per_step)\<close> for \<open>f\<close> from 0 to
  \<open>frames_per_step - 1\<close>, every operation rounded to a double.
\<close>

theorem ease_in_approach_frames:
  "(\<forall>t::real. 0 \<le> t \<and> t \<le> 1 \<longrightarrow> 0 \<le> ease_spec t \<and> ease_spec t \<le> 1)
   \<and> (\<forall>s t::real. 0 \<le> s \<and> s \<le> t \<and> t \<le> 1 \<longrightarrow> ease_spec s \<le> ease_spec t)
   \<and> ease_spec (0::real) = 0 \<and> ease_spec (1::real) = 1 \<and> ease_spec (1 / 2 :: real) = 1 / 2
   \<and> ease 0 = 0 \<and> ease 1 = 1 \<and> ease (1 / 2) = 1 / 2
   \<and> (\<forall>t. 0 \<le> t \<and> t \<le> 1 \<longrightarrow>
          0 \<le> ease t \<and> ease t \<le> 1 \<and> \<bar>ease t - ease_spec t\<bar> \<le> 1 / 2 ^ 49)
   \<and> (\<forall>s t. 0 \<le> s \<and> s \<le> t \<and> t \<le> 1 \<longrightarrow> ease s \<le> ease t + 1 / 2 ^ 48)
   \<and> (\<forall>fps f g. 1 \<le> fps \<and> fps \<le> 1024 \<and> f \<le> g \<and> int g < fps \<longrightarrow>
          0 \<le> ease (fl (of_nat (f + 1) / of_int fps))
        \<and> ease (fl (of_nat (f + 1) / of_int fps)) \<le> ease (fl (of_nat (g + 1) / of_int fps))
        \<and> ease (fl (of_nat (g + 1) / of_int fps)) \<le> 1)
   \<and> (\<forall>arr tg speed i. 1 \<le> speed \<and> speed \<le> 10 \<and> tg \<in> set arr
          \<and> i \<le> length (takeWhile (\<lambda>v. v \<noteq> tg) arr) \<longrightarrow>
          (\<exists>fps. frames_per_step speed = Inr fps \<and> 1 \<le> fps \<and> fps \<le> 12
             \<and> map (\<lambda>fr. map_option glow_strength (image fr))
                  (filter (approach_frame i)
                     (frames_of (linear_search_animated arr (Some tg) speed)))
               = map (\<lambda>f. Some (fl (1 / 2 * ease (fl (of_nat (f + 1) / of_int fps)))))
                   [0..<nat fps]))"
proof (intro conjI allI impI)
  fix t :: real
  assume "0 \<le> t \<and> t \<le> 1"
  then show "0 \<le> ease_spec t" "ease_spec t \<le> 1"
    by (simp_all add: ease_spec_range)
next
  fix s t :: real
  assume "0 \<le> s \<and> s \<le> t \<and> t \<le> 1"
  then show "ease_spec s \<le> ease_spec t" by (simp add: ease_spec_mono)
next
  show "ease_spec (0::real) = 0" "ease_spec (1::real) = 1" "ease_spec (1 / 2 :: real) = 1 / 2"
    by (rule ease_spec_values)+
next
  show "ease 0 = 0" "ease 1 = 1" "ease (1 / 2) = 1 / 2"
    by (rule ease_values)+
next
  fix t :: rat
  assume "0 \<le> t \<and> t \<le> 1"
  then have "0 \<le> t" "t \<le> 1" by simp_all
  then show "0 \<le> ease t" "ease t \<le> 1" "\<bar>ease t - ease_spec t\<bar> \<le> 1 / 2 ^ 49"
    by (rule ease_nonneg, rule ease_le_one, rule ease_close)
next
  fix s t :: rat
  assume "0 \<le> s \<and> s \<le> t \<and> t \<le> 1"
  then have "0 \<le> s" "s \<le> t" "t \<le> 1" by simp_all
  then show "ease s \<le> ease t + 1 / 2 ^ 48" by (rule ease_nearly_mono)
next
  fix fps :: int and f g :: nat
  assume a: "1 \<le> fps \<and> fps \<le> 1024 \<and> f \<le> g \<and> int g < fps"
  then have "1 \<le> fps" "fps \<le> 1024" "f \<le> g" "int g < fps" by simp_all
  from ease_samples [OF this]
  show "0 \<le> ease (fl (of_nat (f + 1) / of_int fps))"
    "ease (fl (of_nat (f + 1) / of_int fps)) \<le> ease (fl (of_nat (g + 1) / of_int fps))"
    "ease (fl (of_nat (g + 1) / of_int fps)) \<le> 1" .
next
  fix arr :: "int list" and tg speed :: int and i :: nat
  assume a: "1 \<le> speed \<and> speed \<le> 10 \<and> tg \<in> set arr
    \<and> i \<le> length (takeWhile (\<lambda>v. v \<noteq> tg) arr)"
  then have "1 \<le> speed" "speed \<le> 10" "tg \<in> set arr"
    "i \<le> length (takeWhile (\<lambda>v. v \<noteq> tg) arr)" by simp_all
  then show "\<exists>fps. frames_per_step speed = Inr fps \<and> 1 \<le> fps \<and> fps \<le> 12
     \<and> map (\<lambda>fr. map_option glow_strength (image fr))
          (filter (approach_frame i) (frames_of (linear_search_animated arr (Some tg) speed)))
       = map (\<lambda>f. Some (fl (1 / 2 * ease (fl (of_nat (f + 1) / of_int fps))))) [0..<nat fps]"
    by (rule approach_glow_run)
qed

theorem ease_in_approach_frames_witness:
  "0 \<le> ease_spec (1 / 4 :: real) \<and> ease_spec (1 / 4 :: real) \<le> ease_spec (3 / 4)
   \<and> ease_spec (3 / 4 :: real) \<le> 1
   \<and> ease 1 = 1
   \<and> ease (1 / 4) \<le> 1
   \<and> \<bar>ease (1 / 4) - ease_spec (1 / 4)\<bar> \<le> 1 / 2 ^ 49
   \<and> ease (1 / 4) \<le> ease (3 / 4) + 1 / 2 ^ 48
   \<and> ease (fl (of_nat (0 + 1) / of_int 7)) \<le> ease (fl (of_nat (3 + 1) / of_int 7))
   \<and> ease (fl (of_nat (3 + 1) / of_int 7)) \<le> 1
   \<and> frames_per_step 10 = Inr 2
   \<and> map (\<lambda>fr. map_option glow_strength (image fr))
        (filter (approach_frame 0) (frames_of (linear_search_animated [5] (Some 5) 10)))
     = [Some (1 / 4), Some (1 / 2)]"
proof -
  note th = ease_in_approach_frames
  have a: "(0::real) \<le> 1 / 4 \<and> (1 / 4 :: real) \<le> 3 / 4 \<and> (3 / 4 :: real) \<le> 1" by simp
  have b: "(0::real) \<le> 1 / 4 \<and> (1 / 4 :: real) \<le> 1" "(0::real) \<le> 3 / 4 \<and> (3 / 4 :: real) \<le> 1"
    by simp_all
  have c: "(0::rat) \<le> 1 / 4 \<and> (1 / 4 :: rat) \<le> 1" by simp
  have c': "(0::rat) \<le> 1 / 4 \<and> (1 / 4 :: rat) \<le> 3 / 4 \<and> (3 / 4 :: rat) \<le> 1" by simp
  have d: "(1::int) \<le> 7 \<and> (7::int) \<le> 1024 \<and> (0::nat) \<le> 3 \<and> int 3 < 7" by simp
  have e: "(1::int) \<le> 10 \<and> (10::int) \<le> 10 \<and> (5::int) \<in> set [5]
    \<and> (0::nat) \<le> length (takeWhile (\<lambda>v. v \<noteq> 5) [5::int])" by simp
  from th a have "ease_spec (1 / 4 :: real) \<le> ease_spec (3 / 4)" by blast
  moreover from th b have "0 \<le> ease_spec (1 / 4 :: real)" "ease_spec (3 / 4 :: real) \<le> 1" by blast+
  moreover from th have one: "ease 1 = 1" and half: "ease (1 / 2) = 1 / 2" by blast+
  moreover from th c have "ease (1 / 4) \<le> 1" "\<bar>ease (1 / 4) - ease_spec (1 / 4)\<bar> \<le> 1 / 2 ^ 49"
    by blast+
  moreover from th c' have "ease (1 / 4) \<le> ease (3 / 4) + 1 / 2 ^ 48" by blast
  moreover from th d have "ease (fl (of_nat (0 + 1) / of_int 7)) \<le> ease (fl (of_nat (3 + 1) / of_int 7))"
    "ease (fl (of_nat (3 + 1) / of_int 7)) \<le> 1" by blast+
  moreover from th e obtain fps where fps: "frames_per_step 10 = Inr fps"
    "map (\<lambda>fr. map_option glow_strength (image fr))
        (filter (approach_frame 0) (frames_of (linear_search_animated [5] (Some 5) 10)))
     = map (\<lambda>f. Some (fl (1 / 2 * ease (fl (of_nat (f + 1) / of_int fps))))) [0..<nat fps]"
    by blast
  have two: "fps = 2" using fps(1) by (simp add: frames_per_step_10)
  have upt: "[0..<nat 2] = [0, Suc 0]" by (simp add: upt_rec)
  have h: "fl (1 / 2) = 1 / 2" "fl 1 = 1" "fl (1 / 4) = 1 / 4"
    using fl_exact [of 1 "- 1"] fl_exact [of 1 0] fl_exact [of 1 "- 2"] by (simp_all add: power_int_minus)
  have s: "(of_nat (0 + 1) / of_int 2 :: rat) = 1 / 2" "(of_nat (Suc 0 + 1) / of_int 2 :: rat) = 1"
    "(1 / 2 * (1 / 2) :: rat) = 1 / 4" "(1 / 2 * 1 :: rat) = 1 / 2"
    by simp_all
  have "map (\<lambda>f. Some (fl (1 / 2 * ease (fl (of_nat (f + 1) / of_int fps))))) [0..<nat fps]
      = [Some (1 / 4), Some (1 / 2)]"
    unfolding two upt by (simp only: list.map s h one half)
  with fps(2) have "map (\<lambda>fr. map_option glow_strength (image fr))
        (filter (approach_frame 0) (frames_of (linear_search_animated [5] (Some 5) 10)))
     = [Some (1 / 4), Some (1 / 2)]" by simp
  ultimately show ?thesis using frames_per_step_10 by blast
qed

text \<open>
  The claim as written, with the computed value monotonic on \<open>[0, 1]\<close> and equal to the
  formula, fails: of two neighbouring doubles near 0.9255 the larger has the smaller
  computed value, and at the double nearest to 1/7 the computed value is not the
  formula's.
\<close>

theorem ease_not_monotonic_counterexample:
  "(0::rat) \<le> 1042028135390207 / 1125899906842624
   \<and> (1042028135390207 / 1125899906842624 :: rat) < 8336225083121657 / 9007199254740992
   \<and> (8336225083121657 / 9007199254740992 :: rat) \<le> 1
   \<and> fl (1042028135390207 / 1125899906842624) = 1042028135390207 / 1125899906842624
   \<and> fl (8336225083121657 / 9007199254740992) = 8336225083121657 / 9007199254740992
   \<and> ease (8336225083121657 / 9007199254740992) < ease (1042028135390207 / 1125899906842624)
   \<and> ease (fl (1 / 7)) \<noteq> ease_spec (fl (1 / 7))"
  by code_simp

section \<open>Independent runs\<close>

lemma trace_draw_pairs:
  "trace arr (Some c)
     (concat (map (\<lambda>f. [Draw (st f) (ci f) (fi f) (g f) (stp f) (pr f), Pause (d f)]) xs) @ rest) =
   concat (map (\<lambda>f. [Yield \<lparr>status = st f, image = Some (draw_frame arr (ci f) (fi f) c (g f)),
                              step = stp f, progress = pr f\<rparr>, Sleep (d f)]) xs) @
   trace arr (Some c) rest"
  by (induction xs) simp_all

lemma trace_approach_code:
  "trace arr (Some c) (approach_code arr fps i @ rest) =
     approach arr fps i c @ trace arr (Some c) rest"
  unfolding approach_code_def approach_def Let_def by (rule trace_draw_pairs)

lemma trace_found_code:
  "trace arr (Some c) (found_code arr tg i) = found_pulses arr tg i c"
  using trace_draw_pairs [of arr c _ _ _ _ _ _ _ _ "[]"]
  unfolding found_code_def found_pulses_def by simp

lemma trace_loop_code:
  "trace arr (Some c) (loop_code arr tg fps i rest) = search_loop arr tg fps i c rest"
  by (induction rest arbitrary: i c) (simp_all add: trace_approach_code trace_found_code Let_def)

lemma trace_generator_code:
  "trace arr None (generator_code arr target speed) =
     (case linear_search_animated arr target speed of Inl e \<Rightarrow> [] | Inr es \<Rightarrow> es)"
  by (simp add: generator_code_def linear_search_animated_def trace_loop_code
        split: option.split sum.split)

lemma frames_of_generator_code:
  "yielded (trace arr None (generator_code arr target speed)) =
     frames_of (linear_search_animated arr target speed)"
  by (simp add: trace_generator_code frames_of_def split: sum.split)

lemma resume_sim:
  "valid a h \<Longrightarrow> resume arr is a h = (fo, is', a', h') \<Longrightarrow>
     yielded (trace arr (bound_set a h) is) =
       (case fo of None \<Rightarrow> [] | Some f \<Rightarrow> [f]) @ yielded (trace arr (bound_set a' h') is')
     \<and> (fo = None \<longrightarrow> is' = [])
     \<and> valid a' h' \<and> length h \<le> length h'
     \<and> (\<forall>j<length h. a \<noteq> Some j \<longrightarrow> h' ! j = h ! j)
     \<and> (a' = a \<or> (\<exists>k. a' = Some k \<and> length h \<le> k))"
proof (induction arr "is" a h arbitrary: fo is' a' h' rule: resume.induct)
  case (1 arr a h)
  then show ?case by simp
next
  case (2 arr "is" a h)
  have v: "valid (Some (length h)) (h @ [{}])" by (simp add: valid_def)
  from 2(3) have r: "resume arr is (Some (length h)) (h @ [{}]) = (fo, is', a', h')" by simp
  from 2(1) [OF v r] show ?case
    by (auto simp: bound_set_def nth_append)
next
  case (3 arr i "is" h)
  then show ?case by (simp add: bound_set_def)
next
  case (4 arr i "is" k h)
  from 4(2) have k: "k < length h" by (simp add: valid_def)
  then have v: "valid (Some k) (h[k := insert i (h ! k)])" by (simp add: valid_def)
  from 4(3) have r: "resume arr is (Some k) (h[k := insert i (h ! k)]) = (fo, is', a', h')" by simp
  from 4(1) [OF v r] k show ?case
    by (auto simp: bound_set_def)
next
  case (5 arr f "is" a h)
  then show ?case by auto
next
  case (6 arr st ci fi g stp pr "is" h)
  then show ?case by (simp add: bound_set_def)
next
  case (7 arr st ci fi g stp pr "is" k h)
  then show ?case by (auto simp: bound_set_def)
next
  case (8 arr d "is" a h)
  from 8(3) have r: "resume arr is a h = (fo, is', a', h')" by simp
  from 8(1) [OF 8(2) r] show ?case by simp
next
  case (9 arr e "is" a h)
  then show ?case by auto
qed

lemma next_frame_sim:
  assumes "valid a h" "valid b h" "\<forall>k. a = Some k \<longrightarrow> b \<noteq> Some k"
  obtains fo is' a' h' where
    "next_frame (arr, is, a) h = (fo, (arr, is', a'), h')"
    "yielded (trace arr (bound_set a h) is) =
       (case fo of None \<Rightarrow> [] | Some f \<Rightarrow> [f]) @ yielded (trace arr (bound_set a' h') is')"
    "fo = None \<longrightarrow> is' = []"
    "valid a' h'" "valid b h'" "\<forall>k. a' = Some k \<longrightarrow> b \<noteq> Some k"
    "bound_set b h' = bound_set b h"
proof -
  obtain fo is' a' h' where r: "resume arr is a h = (fo, is', a', h')"
    by (metis prod_cases4)
  note s = resume_sim [OF assms(1) r]
  have n: "next_frame (arr, is, a) h = (fo, (arr, is', a'), h')"
    by (simp add: next_frame_def r)
  have vb: "valid b h'" using assms(2) s by (auto simp: valid_def split: option.splits)
  have d: "\<forall>k. a' = Some k \<longrightarrow> b \<noteq> Some k"
    using assms(2,3) s by (auto simp: valid_def)
  have bs: "bound_set b h' = bound_set b h"
    using assms(2,3) s by (cases b) (auto simp: bound_set_def valid_def)
  from n s vb d bs show ?thesis using that by blast
qed

lemma interleave_sim:
  "valid a h \<Longrightarrow> valid b h \<Longrightarrow> (\<forall>k. a = Some k \<longrightarrow> b \<noteq> Some k) \<Longrightarrow>
   interleave s (arrA, isA, a) (arrB, isB, b) h =
     (take (length (filter (\<lambda>t. t = First) s)) (yielded (trace arrA (bound_set a h) isA)),
      take (length (filter (\<lambda>t. t = Second) s)) (yielded (trace arrB (bound_set b h) isB)))"
proof (induction s arbitrary: isA a isB b h)
  case Nil
  show ?case by simp
next
  case (Cons t s)
  show ?case
  proof (cases t)
    case First
    from next_frame_sim [OF Cons.prems(1,2,3), of arrA isA]
    obtain fo is' a' h' where n:
      "next_frame (arrA, isA, a) h = (fo, (arrA, is', a'), h')"
      "yielded (trace arrA (bound_set a h) isA) =
         (case fo of None \<Rightarrow> [] | Some f \<Rightarrow> [f]) @ yielded (trace arrA (bound_set a' h') is')"
      "fo = None \<longrightarrow> is' = []"
      "valid a' h'" "valid b h'" "\<forall>k. a' = Some k \<longrightarrow> b \<noteq> Some k"
      "bound_set b h' = bound_set b h"
      by blast
    note ih = Cons.IH [OF n(4,5,6), of is' isB]
    show ?thesis
    proof (cases fo)
      case None
      with n(3) have e: "is' = []" by simp
      show ?thesis
        using First None n(1,2,7) ih e by simp
    next
      case (Some f)
      show ?thesis
        using First Some n(1,2,7) ih by simp
    qed
  next
    case Second
    have sym: "\<forall>k. b = Some k \<longrightarrow> a \<noteq> Some k" using Cons.prems(3) by auto
    from next_frame_sim [OF Cons.prems(2,1) sym, of arrB isB]
    obtain fo is' b' h' where n:
      "next_frame (arrB, isB, b) h = (fo, (arrB, is', b'), h')"
      "yielded (trace arrB (bound_set b h) isB) =
         (case fo of None \<Rightarrow> [] | Some f \<Rightarrow> [f]) @ yielded (trace arrB (bound_set b' h') is')"
      "fo = None \<longrightarrow> is' = []"
      "valid b' h'" "valid a h'" "\<forall>k. b' = Some k \<longrightarrow> a \<noteq> Some k"
      "bound_set a h' = bound_set a h"
      by blast
    have sym': "\<forall>k. a = Some k \<longrightarrow> b' \<noteq> Some k" using n(6) by auto
    note ih = Cons.IH [OF n(5,4) sym', of isA is']
    show ?thesis
    proof (cases fo)
      case None
      with n(3) have e: "is' = []" by simp
      show ?thesis
        using Second None n(1,2,7) ih e by simp
    next
      case (Some f)
      show ?thesis
        using Second Some n(1,2,7) ih by simp
    qed
  qed
qed

text \<open>
  C9. Two generators created by two calls run on one heap, and their consumer calls
  \<^verbatim>\<open>next\<close> on either of them in any order, starting from any heap (so also one run after
  the other). Each of them yields, call after call, the frames (status, visual state,
  step, progress) of its own trace, which is a function of its array, target and speed:
  with the same three inputs the two sequences are the same. The only object a run
  changes is the checked set it has created at line 254, at an address the other run
  does not hold, so nothing one run does is seen by the other.
\<close>

theorem runs_share_no_state:
  "interleave s (generator arr1 target1 speed1) (generator arr2 target2 speed2) h =
     (take (length (filter (\<lambda>t. t = First) s))
        (frames_of (linear_search_animated arr1 target1 speed1)),
      take (length (filter (\<lambda>t. t = Second) s))
        (frames_of (linear_search_animated arr2 target2 speed2)))"
proof -
  have v: "valid None h" by (simp add: valid_def)
  have d: "\<forall>k. (None :: address option) = Some k \<longrightarrow> (None :: address option) \<noteq> Some k" by simp
  show ?thesis
    unfolding generator_def interleave_sim [OF v v d]
    by (simp add: bound_set_def frames_of_generator_code)
qed

theorem runs_share_no_state_witness:
  "map (map (\<lambda>f. map_option (\<lambda>v. (current_index v, found_index v, checked_indices v)) (image f)))
     (case interleave [First, First, First, First, First, Second, Second, Second, Second]
             (generator [5] (Some 5) 10) (generator [5] (Some 5) 10) [{7}]
      of (fs1, fs2) \<Rightarrow> [fs1, fs2]) =
   [[Some (- 1, - 1, {}), Some (0, - 1, {}), Some (0, - 1, {}), Some (0, - 1, {}), Some (0, 0, {0})],
    [Some (- 1, - 1, {}), Some (0, - 1, {}), Some (0, - 1, {}), Some (0, - 1, {})]]"
proof -
  have n: "length (filter (\<lambda>t. t = First)
             [First, First, First, First, First, Second, Second, Second, Second]) = 5"
    "length (filter (\<lambda>t. t = Second)
             [First, First, First, First, First, Second, Second, Second, Second]) = 4"
    by simp_all
  have five: "take 5 [a0, a1, a2, a3, a4, a5, a6, a7, a8, a9] = [a0, a1, a2, a3, a4]"
    and four: "take 4 [a0, a1, a2, a3, a4, a5, a6, a7, a8, a9] = [a0, a1, a2, a3]"
    for a0 a1 a2 a3 a4 a5 a6 a7 a8 a9 :: "(int \<times> int \<times> nat set) option"
    by (simp_all add: numeral_eq_Suc)
  show ?thesis
    unfolding runs_share_no_state
      [of "[First, First, First, First, First, Second, Second, Second, Second]"
          "[5]" "Some 5" 10 "[5]" "Some 5" 10 "[{7}]"] n
    by (simp only: prod.case list.map take_map [symmetric] single_element_trace five four)
qed

section \<open>The progress percentage\<close>

lemma search_loop_approach_progress:
  "\<forall>fr\<in>set (yielded (search_loop arr tg fps i c rest)).
     approach_frame m fr \<longrightarrow> progress fr = progress_html m (length arr)"
proof (induction rest arbitrary: i c)
  case Nil
  then show ?case by (simp add: approach_frame_def)
next
  case (Cons val rest)
  have head: "\<forall>fr\<in>set (yielded (approach arr fps i c)).
     approach_frame m fr \<longrightarrow> progress fr = progress_html m (length arr)"
    by (auto simp: yielded_approach approach_frame_def draw_frame_def)
  have pulses: "\<forall>fr\<in>set (yielded (found_pulses arr tg i (insert i c))). \<not> approach_frame m fr"
    by (auto simp: yielded_found_pulses approach_frame_def)
  show ?case
    using head pulses Cons.IH [of "i + 1" "insert i c"]
    by (auto simp: yielded_append Let_def approach_frame_def)
qed

text \<open>
  C5, at one input. \<^verbatim>\<open>progress_html\<close> divides and multiplies in doubles and then
  truncates: for \<open>done = 29\<close> and \<open>total = 50\<close> the quotient is the double nearest to 0.58,
  its product with 100 rounds to 57.99999999999999, and the percentage is 57, where
  \<open>floor (100 * 29 / 50)\<close> is 58. The run on the array 1, 2, ..., 50 with target 30 shows
  this percentage in the approach frames of index 29.
\<close>

theorem progress_double_truncation:
  "pct (progress_html 29 50) = 57
   \<and> \<lfloor>100 * of_nat 29 / of_nat (max 1 50) :: rat\<rfloor> = 58
   \<and> (\<exists>f\<in>set (frames_of (linear_search_animated (map int [1..<51]) (Some 30) 5)).
         approach_frame 29 f \<and> pct (progress f) = 57
         \<and> done_count (progress f) = 29 \<and> total (progress f) = 50)"
proof -
  let ?arr = "map int [1..<51]"
  have shown: "pct (progress_html 29 50) = 57" by code_simp
  have exact: "\<lfloor>100 * of_nat 29 / of_nat (max 1 50) :: rat\<rfloor> = 58" by simp
  have present: "30 \<in> set ?arr" by simp
  have first: "length (takeWhile (\<lambda>v. v \<noteq> 30) ?arr) = 29" by code_simp
  have len: "length ?arr = 50" by simp
  have "length (filter (approach_frame 29) (frames_of (linear_search_animated ?arr (Some 30) 5))) = nat 7"
    using approach_count_run [OF present frames_per_step_values(5), of 29] first by simp
  then have "filter (approach_frame 29) (frames_of (linear_search_animated ?arr (Some 30) 5)) \<noteq> []"
    by auto
  then obtain f where f: "f \<in> set (frames_of (linear_search_animated ?arr (Some 30) 5))"
      "approach_frame 29 f"
    by (auto simp: filter_empty_conv)
  have start: "\<not> approach_frame 29 \<lparr>status = ''Starting search'' @ ellipsis,
            image = Some (draw_frame ?arr (- 1) (- 1) {} 0),
            step = format_steps 1,
            progress = progress_html 0 (length ?arr)\<rparr>"
    by (simp add: approach_frame_def)
  from f have "f \<in> set (yielded (search_loop ?arr 30 7 0 {} ?arr))"
    unfolding frames_of_present(1) [OF present frames_per_step_values(5)] using start by auto
  with search_loop_approach_progress [of ?arr 30 7 0 "{}" ?arr 29] f(2)
  have "progress f = progress_html 29 (length ?arr)" by blast
  then have "progress f = progress_html 29 50" by (simp only: len)
  then have "pct (progress f) = 57 \<and> done_count (progress f) = 29 \<and> total (progress f) = 50"
    using shown by (simp add: progress_html_def)
  with f shown exact show ?thesis by blast
qed

lemma progress_divisor_positive: "(0::rat) < of_nat (max 1 t)"
  by simp

end
